theory Spec2Isabelle
  imports Main "HOL-Library.AList" "HOL-Library.Monad_Syntax"
begin

section \<open>The read-mostly concurrent map of include/sync/map.hpp, run by one thread\<close>

text \<open>
  The development embeds \<^verbatim>\<open>juliet::sync::map::Entry\<close> and \<^verbatim>\<open>juliet::sync::Map\<close> as
  state-passing functions and verifies their sequential behaviour: every call runs to
  completion before the next one starts, so a mutex is always free when it is taken and a
  compare-and-swap only fails when its expected value differs from the stored one.

  \<^item> A \<^verbatim>\<open>std::shared_ptr<Entry>\<close> is an address (a \<open>nat\<close>) into an explicit store of
    entries, because the published table and the overlay share Entry objects.
  \<^item> A \<^verbatim>\<open>std::unordered_map\<close> is an association list; the order of the list stands for
    the iteration order of the hash table, which the C++ standard leaves open.
  \<^item> A failed \<^verbatim>\<open>assert\<close>, a dereferenced null pointer and an overflowing increment of
    the \<^verbatim>\<open>int\<close> miss counter are the result \<open>None\<close>; \<^verbatim>\<open>int\<close> has 32 bits.
  \<^item> An enumerator passed to \<^verbatim>\<open>Range\<close> is a function of the pair it is shown; it does
    not call back into the map.
\<close>

subsection \<open>Entry\<close>

datatype EState = kNull | kValue | kExpunged

text \<open>\<open>ptr\<close> is the member \<^verbatim>\<open>ptr_\<close> (\<open>None\<close> is \<^verbatim>\<open>nullptr\<close>), \<open>state\<close> the atomic \<^verbatim>\<open>state_\<close>.\<close>

record 'v Entry =
  ptr :: "'v option"
  state :: EState

text \<open>
  \<^verbatim>\<open>std::atomic::compare_exchange_strong(expected, desired)\<close> on an object holding \<open>obj\<close>:
  the triple is (the call's result, the object afterwards, \<open>expected\<close> afterwards).
\<close>

definition compare_exchange_strong :: "EState \<Rightarrow> EState \<Rightarrow> EState \<Rightarrow> bool \<times> EState \<times> EState" where
  "compare_exchange_strong obj expected desired =
     (if obj = expected then (True, desired, expected) else (False, obj, obj))"

text \<open>The constructor \<^verbatim>\<open>Entry(Ptr ptr)\<close> and \<^verbatim>\<open>NewEntry\<close>.\<close>

definition Entry_ctor :: "'v option \<Rightarrow> 'v Entry" where
  "Entry_ctor p = \<lparr>ptr = p, state = (if p \<noteq> None then kValue else kNull)\<rparr>"

definition NewEntry :: "'v \<Rightarrow> 'v Entry" where
  "NewEntry val = Entry_ctor (Some val)"

text \<open>\<^verbatim>\<open>Entry::Load\<close>: the pair is \<^verbatim>\<open>LoadResult{value, loaded}\<close>.\<close>

definition Entry_Load :: "'v Entry \<Rightarrow> 'v option \<times> bool" where
  "Entry_Load e =
     (let st = state e in
      if st = kNull \<or> st = kExpunged then (None, False) else (ptr e, True))"

text \<open>
  \<^verbatim>\<open>Entry::TryStore\<close>: the loop carries the local \<^verbatim>\<open>cur_state\<close>, which a failed
  compare-and-swap refreshes. The result is (the returned flag, the entry afterwards).
\<close>

function TryStore_loop :: "'v \<Rightarrow> EState \<Rightarrow> 'v Entry \<Rightarrow> bool \<times> 'v Entry" where
  "TryStore_loop val cur_state e =
     (if cur_state = kExpunged then (False, e)
      else (case compare_exchange_strong (state e) cur_state kValue of
              (ok, st', cur') \<Rightarrow>
                if ok then (True, e\<lparr>ptr := Some val, state := st'\<rparr>)
                else TryStore_loop val cur' (e\<lparr>state := st'\<rparr>)))"
  by pat_completeness auto
termination
  by (relation "measure (\<lambda>(val, cur, e). if cur = state e then 0 else 1)")
     (auto simp: compare_exchange_strong_def split: if_splits)

definition TryStore :: "'v \<Rightarrow> 'v Entry \<Rightarrow> bool \<times> 'v Entry" where
  "TryStore val e = TryStore_loop val (state e) e"

text \<open>\<^verbatim>\<open>Entry::StoreLocked\<close>.\<close>

function StoreLocked_loop :: "'v \<Rightarrow> EState \<Rightarrow> 'v Entry \<Rightarrow> 'v Entry" where
  "StoreLocked_loop val cur_state e =
     (case compare_exchange_strong (state e) cur_state kValue of
        (ok, st', cur') \<Rightarrow>
          if ok then e\<lparr>ptr := Some val, state := st'\<rparr>
          else StoreLocked_loop val cur' (e\<lparr>state := st'\<rparr>))"
  by pat_completeness auto
termination
  by (relation "measure (\<lambda>(val, cur, e). if cur = state e then 0 else 1)")
     (auto simp: compare_exchange_strong_def split: if_splits)

definition StoreLocked :: "'v \<Rightarrow> 'v Entry \<Rightarrow> 'v Entry" where
  "StoreLocked val e = StoreLocked_loop val (state e) e"

text \<open>
  \<^verbatim>\<open>Entry::TryLoadOrStore\<close>: the triple is \<^verbatim>\<open>TryLoadOrStoreResult{actual, loaded, ok}\<close>.
  The loop starts with \<^verbatim>\<open>assert(cur_state == kNull)\<close>.
\<close>

function TryLoadOrStore_loop ::
  "'v \<Rightarrow> EState \<Rightarrow> 'v Entry \<Rightarrow> (('v option \<times> bool \<times> bool) \<times> 'v Entry) option" where
  "TryLoadOrStore_loop val cur_state e =
     (if cur_state \<noteq> kNull then None
      else (case compare_exchange_strong (state e) cur_state kValue of
              (ok, st', cur') \<Rightarrow>
                if ok then Some ((Some val, False, True), e\<lparr>ptr := Some val, state := st'\<rparr>)
                else if cur' = kExpunged then Some ((None, False, False), e\<lparr>state := st'\<rparr>)
                else if cur' \<noteq> kNull then Some ((ptr e, True, True), e\<lparr>state := st'\<rparr>)
                else TryLoadOrStore_loop val cur' (e\<lparr>state := st'\<rparr>)))"
  by pat_completeness auto
termination
  by (relation "measure (\<lambda>(val, cur, e). if cur = state e then 0 else 1)")
     (auto simp: compare_exchange_strong_def split: if_splits)

definition TryLoadOrStore ::
  "'v \<Rightarrow> 'v Entry \<Rightarrow> (('v option \<times> bool \<times> bool) \<times> 'v Entry) option" where
  "TryLoadOrStore val e =
     (let cur_state = state e in
      if cur_state = kExpunged then Some ((None, False, False), e)
      else if cur_state \<noteq> kNull then Some ((ptr e, True, True), e)
      else TryLoadOrStore_loop val cur_state e)"

text \<open>
  \<^verbatim>\<open>Entry::Delete\<close>: \<open>Some v\<close> is the result \<^verbatim>\<open>true\<close> with \<open>v\<close> moved out of the entry
  (written to \<^verbatim>\<open>*val\<close> when the caller passed a pointer), \<open>None\<close> the result
  \<^verbatim>\<open>false\<close>. The outer option is \<^verbatim>\<open>assert(ptr != nullptr)\<close>.
\<close>

function Entry_Delete_loop :: "EState \<Rightarrow> 'v Entry \<Rightarrow> ('v option \<times> 'v Entry) option" where
  "Entry_Delete_loop cur_state e =
     (if cur_state = kNull \<or> cur_state = kExpunged then Some (None, e)
      else (case compare_exchange_strong (state e) cur_state kNull of
              (ok, st', cur') \<Rightarrow>
                if ok then (case ptr e of
                              None \<Rightarrow> None
                            | Some v \<Rightarrow> Some (Some v, e\<lparr>ptr := None, state := st'\<rparr>))
                else Entry_Delete_loop cur' (e\<lparr>state := st'\<rparr>)))"
  by pat_completeness auto
termination
  by (relation "measure (\<lambda>(cur, e). if cur = state e then 0 else 1)")
     (auto simp: compare_exchange_strong_def split: if_splits)

definition Entry_Delete :: "'v Entry \<Rightarrow> ('v option \<times> 'v Entry) option" where
  "Entry_Delete e = Entry_Delete_loop (state e) e"

text \<open>\<^verbatim>\<open>Entry::TryExpungeLocked\<close> and \<^verbatim>\<open>Entry::UnexpungeLocked\<close>.\<close>

function TryExpungeLocked_loop :: "EState \<Rightarrow> 'v Entry \<Rightarrow> bool \<times> 'v Entry" where
  "TryExpungeLocked_loop cur_state e =
     (if cur_state = kNull
      then (case compare_exchange_strong (state e) cur_state kExpunged of
              (ok, st', cur') \<Rightarrow>
                if ok then (True, e\<lparr>state := st'\<rparr>)
                else TryExpungeLocked_loop cur' (e\<lparr>state := st'\<rparr>))
      else (cur_state = kExpunged, e))"
  by pat_completeness auto
termination
  by (relation "measure (\<lambda>(cur, e). if cur = state e then 0 else 1)")
     (auto simp: compare_exchange_strong_def split: if_splits)

definition TryExpungeLocked :: "'v Entry \<Rightarrow> bool \<times> 'v Entry" where
  "TryExpungeLocked e = TryExpungeLocked_loop (state e) e"

definition UnexpungeLocked :: "'v Entry \<Rightarrow> bool \<times> 'v Entry" where
  "UnexpungeLocked e =
     (case compare_exchange_strong (state e) kExpunged kNull of
        (ok, st', expunged') \<Rightarrow>
          if ok then (True, e\<lparr>ptr := None, state := st'\<rparr>) else (False, e\<lparr>state := st'\<rparr>))"

subsection \<open>Map: the state\<close>

text \<open>
  \<^verbatim>\<open>InnerMap\<close> is \<^verbatim>\<open>std::unordered_map<Key, EntryPtr>\<close>: \<^verbatim>\<open>find\<close> is \<open>map_of\<close>,
  \<^verbatim>\<open>operator[]\<close> followed by an assignment is \<open>AList.update\<close>, \<^verbatim>\<open>erase\<close> is
  \<open>AList.delete\<close>, \<^verbatim>\<open>size\<close> is \<open>length\<close>, and \<^verbatim>\<open>emplace\<close> keeps an existing key.
\<close>

type_synonym 'k InnerMap = "('k \<times> nat) list"

definition emplace :: "'k \<Rightarrow> nat \<Rightarrow> 'k InnerMap \<Rightarrow> 'k InnerMap" where
  "emplace k a m = (if map_of m k = None then m @ [(k, a)] else m)"

text \<open>
  The members of \<^verbatim>\<open>Map\<close>: \<open>read_m\<close> and \<open>read_amended\<close> are \<^verbatim>\<open>read_.readOnly\<close>,
  \<open>dirty\<close> is \<^verbatim>\<open>dirty_\<close> (\<open>None\<close> is \<^verbatim>\<open>nullptr\<close>) and \<open>misses\<close> is \<^verbatim>\<open>misses_\<close>.
  \<open>entries\<close> is the store the entry pointers point into, and \<open>next_entry\<close> the first
  address \<^verbatim>\<open>std::make_shared\<close> has not handed out yet. The two mutexes have no state
  here: one thread never finds them taken.
\<close>

record ('k, 'v) Map =
  entries :: "nat \<Rightarrow> 'v Entry"
  next_entry :: nat
  read_m :: "'k InnerMap"
  read_amended :: bool
  dirty :: "'k InnerMap option"
  misses :: int

text \<open>A default-constructed \<^verbatim>\<open>Map\<close>.\<close>

definition new_Map :: "('k, 'v) Map" where
  "new_Map = \<lparr>entries = (\<lambda>_. Entry_ctor None), next_entry = 0, read_m = [],
              read_amended = False, dirty = None, misses = 0\<rparr>"

text \<open>
  \<^verbatim>\<open>static_cast<int>\<close> of a \<^verbatim>\<open>size_t\<close>: the low 32 bits, read as two's complement.
\<close>

definition static_cast_int :: "nat \<Rightarrow> int" where
  "static_cast_int n =
     (let r = int n mod 2 ^ 32 in if r < 2 ^ 31 then r else r - 2 ^ 32)"

subsection \<open>Map: promotion and overlay construction\<close>

text \<open>
  \<^verbatim>\<open>Map::MissLocked\<close>. Incrementing an \<^verbatim>\<open>int\<close> that holds \<^verbatim>\<open>INT_MAX\<close> is undefined, and
  so is the use of a null \<^verbatim>\<open>dirty_\<close>.
\<close>

definition MissLocked :: "('k, 'v) Map \<Rightarrow> ('k, 'v) Map option" where
  "MissLocked s =
     (if misses s \<ge> 2 ^ 31 - 1 then None
      else let s1 = s\<lparr>misses := misses s + 1\<rparr> in
        case dirty s1 of
          None \<Rightarrow> None
        | Some d \<Rightarrow>
            if misses s1 < static_cast_int (length d) then Some s1
            else Some (s1\<lparr>read_m := d, read_amended := False, dirty := None, misses := 0\<rparr>))"

text \<open>
  \<^verbatim>\<open>Map::DirtyLocked\<close>: the loop walks the published table, expunging the entries it
  finds deleted and copying the others into the new overlay.
\<close>

fun DirtyLocked_loop ::
  "'k InnerMap \<Rightarrow> (nat \<Rightarrow> 'v Entry) \<Rightarrow> 'k InnerMap \<Rightarrow> (nat \<Rightarrow> 'v Entry) \<times> 'k InnerMap" where
  "DirtyLocked_loop [] h d = (h, d)"
| "DirtyLocked_loop ((k, a) # kvs) h d =
     (case TryExpungeLocked (h a) of
        (expunged, e') \<Rightarrow>
          DirtyLocked_loop kvs (h(a := e')) (if \<not> expunged then emplace k a d else d))"

definition DirtyLocked :: "('k, 'v) Map \<Rightarrow> ('k, 'v) Map" where
  "DirtyLocked s =
     (case dirty s of
        Some d \<Rightarrow> s
      | None \<Rightarrow>
          (case DirtyLocked_loop (read_m s) (entries s) [] of
             (h, d) \<Rightarrow> s\<lparr>entries := h, dirty := Some d\<rparr>))"

subsection \<open>Map: Store\<close>

text \<open>
  The part of \<^verbatim>\<open>Map::Store\<close> that runs under \<^verbatim>\<open>mu_\<close> (it reloads the published
  snapshot), and the whole function with its lock-free attempt first.
\<close>

definition Store_locked :: "'k \<Rightarrow> 'v \<Rightarrow> ('k, 'v) Map \<Rightarrow> ('k, 'v) Map option" where
  "Store_locked key val s =
     (case map_of (read_m s) key of
        Some a \<Rightarrow>
          (case UnexpungeLocked (entries s a) of
             (unexpunged, e1) \<Rightarrow> do {
               s1 \<leftarrow> (if unexpunged
                      then (case dirty s of
                              None \<Rightarrow> None
                            | Some d \<Rightarrow>
                                Some (s\<lparr>entries := (entries s)(a := e1),
                                        dirty := Some (AList.update key a d)\<rparr>))
                      else Some (s\<lparr>entries := (entries s)(a := e1)\<rparr>));
               Some (s1\<lparr>entries := (entries s1)(a := StoreLocked val (entries s1 a))\<rparr>)
             })
      | None \<Rightarrow>
          (case (case dirty s of None \<Rightarrow> None | Some d \<Rightarrow> map_of d key) of
             Some a \<Rightarrow> Some (s\<lparr>entries := (entries s)(a := StoreLocked val (entries s a))\<rparr>)
           | None \<Rightarrow> do {
               let s1 = (if \<not> read_amended s then (DirtyLocked s)\<lparr>read_amended := True\<rparr> else s);
               d \<leftarrow> dirty s1;
               let a = next_entry s1;
               Some (s1\<lparr>entries := (entries s1)(a := NewEntry val), next_entry := Suc a,
                        dirty := Some (AList.update key a d)\<rparr>)
             }))"

definition Store :: "'k \<Rightarrow> 'v \<Rightarrow> ('k, 'v) Map \<Rightarrow> ('k, 'v) Map option" where
  "Store key val s =
     (case map_of (read_m s) key of
        Some a \<Rightarrow>
          (case TryStore val (entries s a) of
             (stored, e') \<Rightarrow>
               let s1 = s\<lparr>entries := (entries s)(a := e')\<rparr> in
               if stored then Some s1 else Store_locked key val s1)
      | None \<Rightarrow> Store_locked key val s)"

subsection \<open>Map: Load\<close>

text \<open>
  \<^verbatim>\<open>bool Map::Load(const Key &, Value *)\<close>. The locked part returns the entry pointer it
  found (\<open>None\<close> is a null \<^verbatim>\<open>entry\<close>). The result of \<open>Load\<close> is \<open>Some v\<close> for
  \<^verbatim>\<open>true\<close> with \<open>v\<close> written to \<^verbatim>\<open>*value\<close>, and \<open>None\<close> for \<^verbatim>\<open>false\<close>.
\<close>

definition Load_locked :: "'k \<Rightarrow> ('k, 'v) Map \<Rightarrow> (nat option \<times> ('k, 'v) Map) option" where
  "Load_locked key s =
     (case map_of (read_m s) key of
        Some a \<Rightarrow> Some (Some a, s)
      | None \<Rightarrow>
          if read_amended s
          then (case dirty s of
                  None \<Rightarrow> None
                | Some d \<Rightarrow> do { s' \<leftarrow> MissLocked s; Some (map_of d key, s') })
          else Some (None, s))"

definition Load :: "'k \<Rightarrow> ('k, 'v) Map \<Rightarrow> ('v option \<times> ('k, 'v) Map) option" where
  "Load key s = do {
     (entry, s') \<leftarrow> (case map_of (read_m s) key of
                       Some a \<Rightarrow> Some (Some a, s)
                     | None \<Rightarrow> if read_amended s then Load_locked key s else Some (None, s));
     case entry of
       None \<Rightarrow> Some (None, s')
     | Some a \<Rightarrow>
         (case Entry_Load (entries s' a) of
            (p, loaded) \<Rightarrow>
              if loaded then (case p of None \<Rightarrow> None | Some v \<Rightarrow> Some (Some v, s'))
              else Some (None, s'))
   }"

subsection \<open>Map: LoadOrStore\<close>

text \<open>
  \<^verbatim>\<open>Map::LoadOrStore\<close>: the result pair is (\<^verbatim>\<open>*actual\<close>, the returned flag).
\<close>

definition LoadOrStore_locked ::
  "'k \<Rightarrow> 'v \<Rightarrow> ('k, 'v) Map \<Rightarrow> (('v \<times> bool) \<times> ('k, 'v) Map) option" where
  "LoadOrStore_locked key val s =
     (case map_of (read_m s) key of
        Some a \<Rightarrow>
          (case UnexpungeLocked (entries s a) of
             (unexpunged, e1) \<Rightarrow> do {
               s1 \<leftarrow> (if unexpunged
                      then (case dirty s of
                              None \<Rightarrow> None
                            | Some d \<Rightarrow>
                                Some (s\<lparr>entries := (entries s)(a := e1),
                                        dirty := Some (AList.update key a d)\<rparr>))
                      else Some (s\<lparr>entries := (entries s)(a := e1)\<rparr>));
               ((actual, loaded, ok), e2) \<leftarrow> TryLoadOrStore val (entries s1 a);
               v \<leftarrow> actual;
               Some ((v, loaded), s1\<lparr>entries := (entries s1)(a := e2)\<rparr>)
             })
      | None \<Rightarrow>
          (case (case dirty s of None \<Rightarrow> None | Some d \<Rightarrow> map_of d key) of
             Some a \<Rightarrow> do {
               ((actual, loaded, ok), e2) \<leftarrow> TryLoadOrStore val (entries s a);
               s2 \<leftarrow> MissLocked (s\<lparr>entries := (entries s)(a := e2)\<rparr>);
               v \<leftarrow> actual;
               Some ((v, loaded), s2)
             }
           | None \<Rightarrow> do {
               let s1 = (if \<not> read_amended s then (DirtyLocked s)\<lparr>read_amended := True\<rparr> else s);
               d \<leftarrow> dirty s1;
               let a = next_entry s1;
               Some ((val, False),
                     s1\<lparr>entries := (entries s1)(a := NewEntry val), next_entry := Suc a,
                        dirty := Some (AList.update key a d)\<rparr>)
             }))"

definition LoadOrStore ::
  "'k \<Rightarrow> 'v \<Rightarrow> ('k, 'v) Map \<Rightarrow> (('v \<times> bool) \<times> ('k, 'v) Map) option" where
  "LoadOrStore key val s =
     (case map_of (read_m s) key of
        Some a \<Rightarrow> do {
          ((actual, loaded, ok), e') \<leftarrow> TryLoadOrStore val (entries s a);
          let s1 = s\<lparr>entries := (entries s)(a := e')\<rparr>;
          if ok then do { v \<leftarrow> actual; Some ((v, loaded), s1) }
          else LoadOrStore_locked key val s1
        }
      | None \<Rightarrow> LoadOrStore_locked key val s)"

subsection \<open>Map: Delete\<close>

text \<open>
  \<^verbatim>\<open>bool Map::Delete(const Key &, Value *)\<close>: \<open>Some v\<close> is \<^verbatim>\<open>true\<close> with the removed
  value (which the one-argument overload drops), \<open>None\<close> is \<^verbatim>\<open>false\<close>.
\<close>

definition Delete_locked :: "'k \<Rightarrow> ('k, 'v) Map \<Rightarrow> (nat option \<times> ('k, 'v) Map) option" where
  "Delete_locked key s =
     (case map_of (read_m s) key of
        Some a \<Rightarrow> Some (Some a, s)
      | None \<Rightarrow>
          if read_amended s
          then (case dirty s of
                  None \<Rightarrow> None
                | Some d \<Rightarrow>
                    (case map_of d key of
                       Some a \<Rightarrow> do {
                         s' \<leftarrow> MissLocked (s\<lparr>dirty := Some (AList.delete key d)\<rparr>);
                         Some (Some a, s')
                       }
                     | None \<Rightarrow> do { s' \<leftarrow> MissLocked s; Some (None, s') }))
          else Some (None, s))"

definition Delete :: "'k \<Rightarrow> ('k, 'v) Map \<Rightarrow> ('v option \<times> ('k, 'v) Map) option" where
  "Delete key s = do {
     (entry, s') \<leftarrow> (case map_of (read_m s) key of
                       Some a \<Rightarrow> Some (Some a, s)
                     | None \<Rightarrow> if read_amended s then Delete_locked key s else Some (None, s));
     case entry of
       None \<Rightarrow> Some (None, s')
     | Some a \<Rightarrow> do {
         (r, e') \<leftarrow> Entry_Delete (entries s' a);
         Some (r, s'\<lparr>entries := (entries s')(a := e')\<rparr>)
       }
   }"

subsection \<open>Map: Reset and Range\<close>

text \<open>
  \<^verbatim>\<open>RawMap\<close> is \<^verbatim>\<open>std::unordered_map<Key, Value>\<close>; \<open>Reset\<close> only calls \<^verbatim>\<open>emplace\<close>
  on it, so a finite map is enough.
\<close>

definition raw_emplace :: "'k \<Rightarrow> 'v \<Rightarrow> ('k \<rightharpoonup> 'v) \<Rightarrow> ('k \<rightharpoonup> 'v)" where
  "raw_emplace k v raw = (if raw k = None then raw(k \<mapsto> v) else raw)"

fun Reset_loop :: "'k InnerMap \<Rightarrow> (nat \<Rightarrow> 'v Entry) \<Rightarrow> ('k \<rightharpoonup> 'v) \<Rightarrow> ('k \<rightharpoonup> 'v) option" where
  "Reset_loop [] h raw = Some raw"
| "Reset_loop ((k, a) # kvs) h raw =
     (case Entry_Load (h a) of
        (p, loaded) \<Rightarrow>
          if loaded then (case p of
                            None \<Rightarrow> None
                          | Some v \<Rightarrow> Reset_loop kvs h (raw_emplace k v raw))
          else Reset_loop kvs h raw)"

text \<open>
  \<^verbatim>\<open>void Map::Reset(RawMap *raw)\<close>: the argument is \<open>None\<close> for \<^verbatim>\<open>nullptr\<close> and the
  caller's map otherwise; the result holds the caller's map after the call. The local
  \<^verbatim>\<open>read.m\<close> is null when \<^verbatim>\<open>dirty_\<close> was moved from while null.
\<close>

definition Reset ::
  "('k \<rightharpoonup> 'v) option \<Rightarrow> ('k, 'v) Map \<Rightarrow> (('k \<rightharpoonup> 'v) option \<times> ('k, 'v) Map) option" where
  "Reset raw s =
     (let m = (if read_amended s then dirty s else Some (read_m s));
          s' = s\<lparr>read_m := [], read_amended := False, dirty := None, misses := 0\<rparr>
      in case raw of
           None \<Rightarrow> Some (None, s')
         | Some r \<Rightarrow> do {
             t \<leftarrow> m;
             r' \<leftarrow> Reset_loop t (entries s) r;
             Some (Some r', s')
           })"

text \<open>
  \<^verbatim>\<open>Map::Range\<close> (named \<open>Map_Range\<close>, as HOL has a \<open>Range\<close> of relations): an \<^verbatim>\<open>Enumerator\<close> is a \<^verbatim>\<open>std::function\<close>, which may be empty
  (\<open>None\<close>). The loop returns the calls it made to the enumerator, in order; the
  enumerator itself is a function of the pair it is shown. Promoting a null \<^verbatim>\<open>dirty_\<close>
  publishes a null table, which \<^verbatim>\<open>assert(read.m != nullptr)\<close> rejects.
\<close>

fun Map_Range_loop ::
  "('k \<Rightarrow> 'v \<Rightarrow> bool) \<Rightarrow> 'k InnerMap \<Rightarrow> (nat \<Rightarrow> 'v Entry) \<Rightarrow> ('k \<times> 'v) list option" where
  "Map_Range_loop f [] h = Some []"
| "Map_Range_loop f ((k, a) # kvs) h =
     (case Entry_Load (h a) of
        (p, loaded) \<Rightarrow>
          if loaded then (case p of
                            None \<Rightarrow> None
                          | Some v \<Rightarrow>
                              if \<not> f k v then Some [(k, v)]
                              else map_option ((#) (k, v)) (Map_Range_loop f kvs h))
          else Map_Range_loop f kvs h)"

definition Map_Range ::
  "('k \<Rightarrow> 'v \<Rightarrow> bool) option \<Rightarrow> ('k, 'v) Map \<Rightarrow> (('k \<times> 'v) list \<times> ('k, 'v) Map) option" where
  "Map_Range enumerator s =
     (case enumerator of
        None \<Rightarrow> Some ([], s)
      | Some f \<Rightarrow>
          do {
            s' \<leftarrow> (if read_amended s
                   then (case dirty s of
                           None \<Rightarrow> None
                         | Some d \<Rightarrow>
                             Some (s\<lparr>read_m := d, read_amended := False, dirty := None,
                                     misses := 0\<rparr>))
                   else Some s);
            calls \<leftarrow> Map_Range_loop f (read_m s') (entries s');
            Some (calls, s')
          })"

subsection \<open>Runs of the public operations\<close>

text \<open>
  A call of one of the six public operations, and the state a sequence of calls leaves
  behind. The results of the calls are dropped here: \<open>run\<close> describes which states a
  client can bring a map into.
\<close>

datatype ('k, 'v) Op =
    Store_op 'k 'v
  | Load_op 'k
  | LoadOrStore_op 'k 'v
  | Delete_op 'k
  | Range_op "('k \<Rightarrow> 'v \<Rightarrow> bool) option"
  | Reset_op "('k \<rightharpoonup> 'v) option"

fun step :: "('k, 'v) Op \<Rightarrow> ('k, 'v) Map \<Rightarrow> ('k, 'v) Map option" where
  "step (Store_op k v) s = Store k v s"
| "step (Load_op k) s = map_option snd (Load k s)"
| "step (LoadOrStore_op k v) s = map_option snd (LoadOrStore k v s)"
| "step (Delete_op k) s = map_option snd (Delete k s)"
| "step (Range_op f) s = map_option snd (Map_Range f s)"
| "step (Reset_op raw) s = map_option snd (Reset raw s)"

fun run :: "('k, 'v) Op list \<Rightarrow> ('k, 'v) Map \<Rightarrow> ('k, 'v) Map option" where
  "run [] s = Some s"
| "run (x # xs) s = (case step x s of None \<Rightarrow> None | Some s' \<Rightarrow> run xs s')"

subsection \<open>The representation invariant and the map a state stands for\<close>

text \<open>
  The spec's Entry invariant: the tag is Present exactly when a value is set.
\<close>

definition Entry_inv :: "'v Entry \<Rightarrow> bool" where
  "Entry_inv e \<longleftrightarrow> (state e = kValue \<longleftrightarrow> ptr e \<noteq> None)"

text \<open>The value an entry holds for a reader: what \<^verbatim>\<open>Entry::Load\<close> reports.\<close>

definition Entry_value :: "'v Entry \<Rightarrow> 'v option" where
  "Entry_value e = (if state e = kValue then ptr e else None)"

text \<open>The published table and the overlay as maps from keys to entry addresses.\<close>

definition rd :: "('k, 'v) Map \<Rightarrow> 'k \<rightharpoonup> nat" where
  "rd s = map_of (read_m s)"

definition dt :: "('k, 'v) Map \<Rightarrow> 'k \<rightharpoonup> nat" where
  "dt s = (case dirty s of None \<Rightarrow> Map.empty | Some d \<Rightarrow> map_of d)"

text \<open>
  The key-value map a state stands for: a key is looked up in the published table first
  and in the overlay otherwise, and its entry is read.
\<close>

definition contents :: "('k, 'v) Map \<Rightarrow> 'k \<rightharpoonup> 'v" where
  "contents s k =
     (case (case rd s k of Some a \<Rightarrow> Some a | None \<Rightarrow> dt s k) of
        None \<Rightarrow> None
      | Some a \<Rightarrow> Entry_value (entries s a))"

text \<open>
  The invariant of the representation: both tables have one node per key; every entry in
  a table is allocated and well-formed and belongs to one key only; the overlay holds no
  expunged entry and agrees with the published table on the keys they share; every
  published entry that is not expunged is in the overlay, once there is one; the
  published snapshot is amended exactly when there is an overlay; without an overlay no
  published entry is expunged; and the miss counter is in the range where incrementing
  it is defined.
\<close>

definition Map_inv :: "('k, 'v) Map \<Rightarrow> bool" where
  "Map_inv s \<longleftrightarrow>
     distinct (map fst (read_m s)) \<and>
     (\<forall>d. dirty s = Some d \<longrightarrow> distinct (map fst d)) \<and>
     (\<forall>k a. rd s k = Some a \<or> dt s k = Some a \<longrightarrow>
        a < next_entry s \<and> Entry_inv (entries s a)) \<and>
     (\<forall>k k' a. (rd s k = Some a \<or> dt s k = Some a) \<longrightarrow>
        (rd s k' = Some a \<or> dt s k' = Some a) \<longrightarrow> k = k') \<and>
     (\<forall>k a. dt s k = Some a \<longrightarrow>
        state (entries s a) \<noteq> kExpunged \<and> (rd s k = None \<or> rd s k = Some a)) \<and>
     (\<forall>k a. rd s k = Some a \<longrightarrow> state (entries s a) \<noteq> kExpunged \<longrightarrow>
        dirty s \<noteq> None \<longrightarrow> dt s k = Some a) \<and>
     (read_amended s \<longleftrightarrow> dirty s \<noteq> None) \<and>
     (dirty s = None \<longrightarrow> (\<forall>k a. rd s k = Some a \<longrightarrow> state (entries s a) \<noteq> kExpunged)) \<and>
     0 \<le> misses s \<and> misses s < 2 ^ 31 - 1"

text \<open>
  What the spec says \<open>Range\<close> shows its predicate: the pairs of a table whose entry
  reports a value, in table order, up to and with the first pair the predicate rejects.
\<close>

definition live_pairs :: "'k InnerMap \<Rightarrow> (nat \<Rightarrow> 'v Entry) \<Rightarrow> ('k \<times> 'v) list" where
  "live_pairs t h =
     List.map_filter (\<lambda>(k, a). map_option (Pair k) (Entry_value (h a))) t"

definition until_rejected :: "('k \<Rightarrow> 'v \<Rightarrow> bool) \<Rightarrow> ('k \<times> 'v) list \<Rightarrow> ('k \<times> 'v) list" where
  "until_rejected f xs =
     takeWhile (\<lambda>(k, v). f k v) xs @ take 1 (dropWhile (\<lambda>(k, v). f k v) xs)"

text \<open>
  The part of a state that promotion is about: the published table, the amended flag, the
  overlay and the miss counter. \<open>miss_recorded d s\<close> is what the promotion policy makes of
  it when a miss is recorded in a state whose overlay is \<open>d\<close>: the counter goes up by one,
  and once it has reached the size of \<open>d\<close> the overlay is published and the counter is
  zero again.
\<close>

definition bookkeeping ::
  "('k, 'v) Map \<Rightarrow> 'k InnerMap \<times> bool \<times> 'k InnerMap option \<times> int" where
  "bookkeeping s = (read_m s, read_amended s, dirty s, misses s)"

definition miss_recorded ::
  "'k InnerMap \<Rightarrow> ('k, 'v) Map \<Rightarrow> 'k InnerMap \<times> bool \<times> 'k InnerMap option \<times> int" where
  "miss_recorded d s =
     (if misses s + 1 < int (length d) then (read_m s, read_amended s, Some d, misses s + 1)
      else (d, False, None, 0))"

text \<open>
  The store after the loop of \<open>DirtyLocked\<close> has walked a table \<open>t\<close>: every deleted
  entry of \<open>t\<close> is expunged, every other entry is as before.
\<close>

definition expunge_all :: "'k InnerMap \<Rightarrow> (nat \<Rightarrow> 'v Entry) \<Rightarrow> nat \<Rightarrow> 'v Entry" where
  "expunge_all t h a =
     (if a \<in> snd ` set t \<and> state (h a) = kNull then (h a)\<lparr>state := kExpunged\<rparr> else h a)"

section \<open>Entry: what each operation does when it runs alone\<close>

lemma TryStore_eq:
  "TryStore val e =
     (if state e = kExpunged then (False, e) else (True, e\<lparr>ptr := Some val, state := kValue\<rparr>))"
  unfolding TryStore_def
  by (subst TryStore_loop.simps) (simp add: compare_exchange_strong_def)

lemma StoreLocked_eq: "StoreLocked val e = e\<lparr>ptr := Some val, state := kValue\<rparr>"
  unfolding StoreLocked_def
  by (subst StoreLocked_loop.simps) (simp add: compare_exchange_strong_def)

lemma TryLoadOrStore_eq:
  "TryLoadOrStore val e =
     (case state e of
        kNull \<Rightarrow> Some ((Some val, False, True), e\<lparr>ptr := Some val, state := kValue\<rparr>)
      | kValue \<Rightarrow> Some ((ptr e, True, True), e)
      | kExpunged \<Rightarrow> Some ((None, False, False), e))"
  unfolding TryLoadOrStore_def
  by (subst TryLoadOrStore_loop.simps)
     (simp add: compare_exchange_strong_def split: EState.splits)

lemma Entry_Delete_eq:
  "Entry_Delete e =
     (if state e = kValue
      then (case ptr e of
              None \<Rightarrow> None
            | Some v \<Rightarrow> Some (Some v, e\<lparr>ptr := None, state := kNull\<rparr>))
      else Some (None, e))"
  unfolding Entry_Delete_def
  by (subst Entry_Delete_loop.simps) (cases "state e"; simp add: compare_exchange_strong_def)

lemma TryExpungeLocked_eq:
  "TryExpungeLocked e =
     (case state e of
        kNull \<Rightarrow> (True, e\<lparr>state := kExpunged\<rparr>)
      | kValue \<Rightarrow> (False, e)
      | kExpunged \<Rightarrow> (True, e))"
  unfolding TryExpungeLocked_def
  by (subst TryExpungeLocked_loop.simps)
     (simp add: compare_exchange_strong_def split: EState.splits)

lemma UnexpungeLocked_eq:
  "UnexpungeLocked e =
     (if state e = kExpunged then (True, e\<lparr>ptr := None, state := kNull\<rparr>) else (False, e))"
  by (simp add: UnexpungeLocked_def compare_exchange_strong_def)

lemma Entry_Load_eq:
  "Entry_Load e = (if state e = kValue then (ptr e, True) else (None, False))"
  by (cases "state e") (simp_all add: Entry_Load_def)

lemmas entry_eqs =
  TryStore_eq StoreLocked_eq TryLoadOrStore_eq Entry_Delete_eq TryExpungeLocked_eq
  UnexpungeLocked_eq Entry_Load_eq

lemmas map_defs =
  Store_def Store_locked_def Load_def Load_locked_def LoadOrStore_def
  LoadOrStore_locked_def Delete_def Delete_locked_def Map_Range_def Reset_def
  MissLocked_def DirtyLocked_def new_Map_def emplace_def static_cast_int_def
  NewEntry_def Entry_ctor_def

section \<open>The invariant: how to show it and what it gives\<close>

text \<open>
  The proofs below follow one plan. Every operation of \<open>Map\<close> is a composition of a few
  changes of the state: an entry is overwritten, the overlay is promoted, an expunged
  entry is revived and put into the overlay, a new entry is allocated, a node is erased
  from the overlay, the overlay is built. For each change there is a lemma that the
  invariant \<open>Map_inv\<close> survives it and a lemma that says what it does to \<open>contents\<close>.
  The first change: an entry that some key owns and that is not expunged is overwritten
  with a well-formed entry that is not expunged.
\<close>

lemma dt_Some [simp]: "dirty s = Some d \<Longrightarrow> dt s = map_of d"
  by (simp add: dt_def)

lemma dt_None [simp]: "dirty s = None \<Longrightarrow> dt s = Map.empty"
  by (simp add: dt_def)

text \<open>One introduction rule for the invariant and one rule for each of its parts.\<close>

lemma Map_invI:
  assumes "distinct (map fst (read_m s))"
    and "\<And>d. dirty s = Some d \<Longrightarrow> distinct (map fst d)"
    and "\<And>k a. rd s k = Some a \<or> dt s k = Some a \<Longrightarrow>
           a < next_entry s \<and> Entry_inv (entries s a)"
    and "\<And>k k' a. rd s k = Some a \<or> dt s k = Some a \<Longrightarrow>
           rd s k' = Some a \<or> dt s k' = Some a \<Longrightarrow> k = k'"
    and "\<And>k a. dt s k = Some a \<Longrightarrow>
           state (entries s a) \<noteq> kExpunged \<and> (rd s k = None \<or> rd s k = Some a)"
    and "\<And>k a. rd s k = Some a \<Longrightarrow> state (entries s a) \<noteq> kExpunged \<Longrightarrow>
           dirty s \<noteq> None \<Longrightarrow> dt s k = Some a"
    and "read_amended s \<longleftrightarrow> dirty s \<noteq> None"
    and "\<And>k a. dirty s = None \<Longrightarrow> rd s k = Some a \<Longrightarrow>
           state (entries s a) \<noteq> kExpunged"
    and "0 \<le> misses s" and "misses s < 2 ^ 31 - 1"
  shows "Map_inv s"
  unfolding Map_inv_def
  apply (intro conjI allI impI)
  using assms by blast+

lemma inv_distinct_rd: "Map_inv s \<Longrightarrow> distinct (map fst (read_m s))"
  by (simp add: Map_inv_def)

lemma inv_distinct_dt: "Map_inv s \<Longrightarrow> dirty s = Some d \<Longrightarrow> distinct (map fst d)"
  by (simp add: Map_inv_def)

lemma inv_ref:
  "Map_inv s \<Longrightarrow> rd s k = Some a \<or> dt s k = Some a \<Longrightarrow>
     a < next_entry s \<and> Entry_inv (entries s a)"
  unfolding Map_inv_def by blast

lemma inv_owner:
  "Map_inv s \<Longrightarrow> rd s k = Some a \<or> dt s k = Some a \<Longrightarrow>
     rd s k' = Some a \<or> dt s k' = Some a \<Longrightarrow> k = k'"
  unfolding Map_inv_def by blast

lemma inv_dt:
  "Map_inv s \<Longrightarrow> dt s k = Some a \<Longrightarrow>
     state (entries s a) \<noteq> kExpunged \<and> (rd s k = None \<or> rd s k = Some a)"
  unfolding Map_inv_def by blast

lemma inv_rd:
  "Map_inv s \<Longrightarrow> rd s k = Some a \<Longrightarrow> state (entries s a) \<noteq> kExpunged \<Longrightarrow>
     dirty s \<noteq> None \<Longrightarrow> dt s k = Some a"
  unfolding Map_inv_def by blast

lemma inv_amended: "Map_inv s \<Longrightarrow> read_amended s \<longleftrightarrow> dirty s \<noteq> None"
  unfolding Map_inv_def by blast

lemma inv_no_dirty:
  "Map_inv s \<Longrightarrow> dirty s = None \<Longrightarrow> rd s k = Some a \<Longrightarrow>
     state (entries s a) \<noteq> kExpunged"
  unfolding Map_inv_def by blast

lemma inv_misses: "Map_inv s \<Longrightarrow> 0 \<le> misses s \<and> misses s < 2 ^ 31 - 1"
  unfolding Map_inv_def by blast

lemma rd_simps [simp]:
  "rd (s\<lparr>entries := h\<rparr>) = rd s"
  "rd (s\<lparr>next_entry := n\<rparr>) = rd s"
  "rd (s\<lparr>dirty := d\<rparr>) = rd s"
  "rd (s\<lparr>misses := m\<rparr>) = rd s"
  "rd (s\<lparr>read_amended := b\<rparr>) = rd s"
  "rd (s\<lparr>read_m := t\<rparr>) = map_of t"
  by (simp_all add: rd_def)

lemma dt_simps [simp]:
  "dt (s\<lparr>entries := h\<rparr>) = dt s"
  "dt (s\<lparr>next_entry := n\<rparr>) = dt s"
  "dt (s\<lparr>read_m := t\<rparr>) = dt s"
  "dt (s\<lparr>misses := m\<rparr>) = dt s"
  "dt (s\<lparr>read_amended := b\<rparr>) = dt s"
  "dt (s\<lparr>dirty := Some d\<rparr>) = map_of d"
  "dt (s\<lparr>dirty := None\<rparr>) = Map.empty"
  by (simp_all add: dt_def)

lemma inv_set_entry:
  assumes inv: "Map_inv s" and r: "rd s k = Some a \<or> dt s k = Some a"
    and old: "state (entries s a) \<noteq> kExpunged" and new: "state e \<noteq> kExpunged" "Entry_inv e"
  shows "Map_inv (s\<lparr>entries := (entries s)(a := e)\<rparr>)"
proof (rule Map_invI)
  let ?s = "s\<lparr>entries := (entries s)(a := e)\<rparr>"
  show "distinct (map fst (read_m ?s))" using inv_distinct_rd [OF inv] by simp
  show "distinct (map fst d)" if "dirty ?s = Some d" for d
    using that inv_distinct_dt [OF inv] by simp
  show "a' < next_entry ?s \<and> Entry_inv (entries ?s a')"
    if "rd ?s k' = Some a' \<or> dt ?s k' = Some a'" for k' a'
    using that inv_ref [OF inv, of k' a'] new by simp
  show "k1 = k2" if "rd ?s k1 = Some a' \<or> dt ?s k1 = Some a'"
    "rd ?s k2 = Some a' \<or> dt ?s k2 = Some a'" for k1 k2 a'
    using that inv_owner [OF inv, of k1 a' k2] by simp
  show "state (entries ?s a') \<noteq> kExpunged \<and> (rd ?s k' = None \<or> rd ?s k' = Some a')"
    if "dt ?s k' = Some a'" for k' a'
    using that inv_dt [OF inv, of k' a'] new by simp
  show "dt ?s k' = Some a'"
    if "rd ?s k' = Some a'" "state (entries ?s a') \<noteq> kExpunged" "dirty ?s \<noteq> None" for k' a'
    using that inv_rd [OF inv, of k' a'] old by (cases "a' = a") simp_all
  show "read_amended ?s \<longleftrightarrow> dirty ?s \<noteq> None" using inv_amended [OF inv] by simp
  show "state (entries ?s a') \<noteq> kExpunged" if "dirty ?s = None" "rd ?s k' = Some a'" for k' a'
    using that inv_no_dirty [OF inv, of k' a'] new by simp
  show "0 \<le> misses ?s" "misses ?s < 2 ^ 31 - 1" using inv_misses [OF inv] by simp_all
qed

lemma contents_set_entry:
  assumes inv: "Map_inv s" and r: "rd s k = Some a \<or> dt s k = Some a"
  shows "contents (s\<lparr>entries := (entries s)(a := e)\<rparr>) = (contents s)(k := Entry_value e)"
proof
  fix k'
  show "contents (s\<lparr>entries := (entries s)(a := e)\<rparr>) k' = ((contents s)(k := Entry_value e)) k'"
  proof (cases "k' = k")
    case True
    then show ?thesis using r inv_dt [OF inv, of k a]
      by (auto simp: contents_def split: option.splits)
  next
    case False
    have "a' \<noteq> a" if "rd s k' = Some a' \<or> dt s k' = Some a'" for a'
      using inv_owner [OF inv r, of k'] that False by blast
    then show ?thesis using False
      by (auto simp: contents_def split: option.splits)
  qed
qed

section \<open>Promotion and the miss counter\<close>

text \<open>
  Promotion keeps the invariant and the contents: a published node whose key the overlay
  lacks is expunged, so a reader loses nothing. \<open>MissLocked\<close> is defined in every state
  with an overlay that satisfies the invariant.
\<close>

lemma static_cast_int_le: "static_cast_int n \<le> 2 ^ 31 - 1"
proof -
  define r where "r = int n mod 2 ^ 32"
  have "r < 2 ^ 32" by (simp add: r_def)
  then have "(if r < 2 ^ 31 then r else r - 2 ^ 32) \<le> 2 ^ 31 - 1" by simp
  then show ?thesis unfolding static_cast_int_def Let_def r_def [symmetric] .
qed

lemma static_cast_int_small: "n < 2 ^ 31 \<Longrightarrow> static_cast_int n = int n"
  by (simp add: static_cast_int_def Let_def)

lemma inv_promote:
  assumes inv: "Map_inv s" and d: "dirty s = Some d"
  shows "Map_inv (s\<lparr>read_m := d, read_amended := False, dirty := None, misses := 0\<rparr>)"
proof (rule Map_invI)
  let ?s = "s\<lparr>read_m := d, read_amended := False, dirty := None, misses := 0\<rparr>"
  show "distinct (map fst (read_m ?s))" using inv_distinct_dt [OF inv d] by simp
  show "distinct (map fst d')" if "dirty ?s = Some d'" for d' using that by simp
  show "a < next_entry ?s \<and> Entry_inv (entries ?s a)"
    if "rd ?s k = Some a \<or> dt ?s k = Some a" for k a
    using that inv_ref [OF inv, of k a] d by simp
  show "k1 = k2" if "rd ?s k1 = Some a \<or> dt ?s k1 = Some a"
    "rd ?s k2 = Some a \<or> dt ?s k2 = Some a" for k1 k2 a
    using that inv_owner [OF inv, of k1 a k2] d by simp
  show "state (entries ?s a) \<noteq> kExpunged \<and> (rd ?s k = None \<or> rd ?s k = Some a)"
    if "dt ?s k = Some a" for k a using that by simp
  show "dt ?s k = Some a"
    if "rd ?s k = Some a" "state (entries ?s a) \<noteq> kExpunged" "dirty ?s \<noteq> None" for k a
    using that by simp
  show "read_amended ?s \<longleftrightarrow> dirty ?s \<noteq> None" by simp
  show "state (entries ?s a) \<noteq> kExpunged" if "dirty ?s = None" "rd ?s k = Some a" for k a
    using that inv_dt [OF inv, of k a] d by simp
  show "0 \<le> misses ?s" "misses ?s < 2 ^ 31 - 1" by simp_all
qed

lemma Entry_value_expunged: "state e = kExpunged \<Longrightarrow> Entry_value e = None"
  by (simp add: Entry_value_def)

lemma contents_promote:
  assumes inv: "Map_inv s" and d: "dirty s = Some d"
  shows "contents (s\<lparr>read_m := d, read_amended := False, dirty := None, misses := 0\<rparr>) = contents s"
proof
  fix k
  let ?s = "s\<lparr>read_m := d, read_amended := False, dirty := None, misses := 0\<rparr>"
  show "contents ?s k = contents s k"
  proof (cases "rd s k")
    case None
    then show ?thesis using d by (simp add: contents_def split: option.splits)
  next
    case (Some a)
    show ?thesis
    proof (cases "state (entries s a) = kExpunged")
      case True
      have "dt s k = None"
      proof (cases "dt s k")
        case (Some a')
        with inv_dt [OF inv Some] \<open>rd s k = Some a\<close> True show ?thesis by auto
      qed simp
      with Some True d show ?thesis
        by (simp add: contents_def Entry_value_expunged)
    next
      case False
      with inv_rd [OF inv Some] d have "dt s k = Some a" by simp
      with Some d show ?thesis by (simp add: contents_def)
    qed
  qed
qed

lemma contents_overlay:
  assumes inv: "Map_inv s" and d: "dirty s = Some d"
  shows "contents s k =
           (case map_of d k of None \<Rightarrow> None | Some a \<Rightarrow> Entry_value (entries s a))"
proof -
  have "contents (s\<lparr>read_m := d, read_amended := False, dirty := None, misses := 0\<rparr>) k =
          (case map_of d k of None \<Rightarrow> None | Some a \<Rightarrow> Entry_value (entries s a))"
    by (simp add: contents_def split: option.splits)
  then show ?thesis using contents_promote [OF inv d] by metis
qed

lemma contents_published:
  assumes "dirty s = None"
  shows "contents s k =
           (case map_of (read_m s) k of None \<Rightarrow> None | Some a \<Rightarrow> Entry_value (entries s a))"
  using assms by (simp add: contents_def rd_def split: option.splits)

lemma Map_inv_cong:
  assumes "read_m s' = read_m s" "dirty s' = dirty s" "entries s' = entries s"
    "next_entry s' = next_entry s" "read_amended s' = read_amended s"
    "0 \<le> misses s' \<and> misses s' < 2 ^ 31 - 1 \<longleftrightarrow> 0 \<le> misses s \<and> misses s < 2 ^ 31 - 1"
  shows "Map_inv s' = Map_inv s"
  unfolding Map_inv_def rd_def dt_def using assms by simp

lemma inv_misses_update:
  assumes inv: "Map_inv s" and "0 \<le> m" "m < 2 ^ 31 - 1"
  shows "Map_inv (s\<lparr>misses := m\<rparr>)"
  using inv inv_misses [OF inv] assms(2,3)
  by (subst Map_inv_cong [of _ s]) simp_all

lemma MissLocked_inv:
  assumes inv: "Map_inv s" and d: "dirty s = Some d"
  shows "\<exists>s'. MissLocked s = Some s' \<and> Map_inv s' \<and> contents s' = contents s \<and>
           entries s' = entries s \<and> next_entry s' = next_entry s \<and>
           (\<forall>k a. rd s' k = Some a \<or> dt s' k = Some a \<longrightarrow> rd s k = Some a \<or> dt s k = Some a)"
proof (cases "misses s + 1 < static_cast_int (length d)")
  case True
  let ?s = "s\<lparr>misses := misses s + 1\<rparr>"
  have m: "MissLocked s = Some ?s"
    using True d inv_misses [OF inv] by (simp add: MissLocked_def Let_def)
  have "misses s + 1 < 2 ^ 31 - 1" using True static_cast_int_le [of "length d"] by linarith
  then have "Map_inv ?s"
    using inv_misses [OF inv] by (intro inv_misses_update [OF inv]) simp_all
  moreover have "contents ?s = contents s"
    by (rule ext) (simp add: contents_def cong: option.case_cong)
  ultimately show ?thesis using m by simp
next
  case False
  let ?s = "s\<lparr>read_m := d, read_amended := False, dirty := None, misses := 0\<rparr>"
  have m: "MissLocked s = Some ?s"
    using False d inv_misses [OF inv] by (simp add: MissLocked_def Let_def)
  show ?thesis
    using m inv_promote [OF inv d] contents_promote [OF inv d] d by simp
qed

lemma inv_set_unreferenced:
  assumes inv: "Map_inv s" and free: "\<And>k. rd s k \<noteq> Some a \<and> dt s k \<noteq> Some a"
  shows "Map_inv (s\<lparr>entries := (entries s)(a := e)\<rparr>)"
proof (rule Map_invI)
  let ?s = "s\<lparr>entries := (entries s)(a := e)\<rparr>"
  show "distinct (map fst (read_m ?s))" using inv_distinct_rd [OF inv] by simp
  show "distinct (map fst d)" if "dirty ?s = Some d" for d
    using that inv_distinct_dt [OF inv] by simp
  show "a' < next_entry ?s \<and> Entry_inv (entries ?s a')"
    if "rd ?s k' = Some a' \<or> dt ?s k' = Some a'" for k' a'
    using that inv_ref [OF inv, of k' a'] free [of k'] by auto
  show "k1 = k2" if "rd ?s k1 = Some a' \<or> dt ?s k1 = Some a'"
    "rd ?s k2 = Some a' \<or> dt ?s k2 = Some a'" for k1 k2 a'
    using that inv_owner [OF inv, of k1 a' k2] by simp
  show "state (entries ?s a') \<noteq> kExpunged \<and> (rd ?s k' = None \<or> rd ?s k' = Some a')"
    if "dt ?s k' = Some a'" for k' a'
    using that inv_dt [OF inv, of k' a'] free [of k'] by auto
  show "dt ?s k' = Some a'"
    if "rd ?s k' = Some a'" "state (entries ?s a') \<noteq> kExpunged" "dirty ?s \<noteq> None" for k' a'
    using that inv_rd [OF inv, of k' a'] free [of k'] by (cases "a' = a") simp_all
  show "read_amended ?s \<longleftrightarrow> dirty ?s \<noteq> None" using inv_amended [OF inv] by simp
  show "state (entries ?s a') \<noteq> kExpunged" if "dirty ?s = None" "rd ?s k' = Some a'" for k' a'
    using that inv_no_dirty [OF inv, of k' a'] free [of k'] by auto
  show "0 \<le> misses ?s" "misses ?s < 2 ^ 31 - 1" using inv_misses [OF inv] by simp_all
qed

lemma contents_set_unreferenced:
  assumes free: "\<And>k. rd s k \<noteq> Some a \<and> dt s k \<noteq> Some a"
  shows "contents (s\<lparr>entries := (entries s)(a := e)\<rparr>) = contents s"
proof
  fix k
  show "contents (s\<lparr>entries := (entries s)(a := e)\<rparr>) k = contents s k"
    using free [of k] by (auto simp: contents_def split: option.splits)
qed

section \<open>Changes to the overlay\<close>

text \<open>
  Reviving an expunged entry, allocating an entry for a new key, and erasing a node from
  the overlay.
\<close>

lemma map_of_update [simp]: "map_of (AList.update k v al) = (map_of al)(k \<mapsto> v)"
  by (rule AList.update_conv')

lemma map_of_delete [simp]: "map_of (AList.delete k al) = (map_of al)(k := None)"
  by (rule AList.delete_conv')

lemma expunged_not_dirty:
  assumes inv: "Map_inv s" and r: "rd s k = Some a" and x: "state (entries s a) = kExpunged"
  shows "dt s k' \<noteq> Some a" and "\<exists>d. dirty s = Some d"
proof -
  show "dt s k' \<noteq> Some a" using inv_dt [OF inv, of k' a] x by auto
  show "\<exists>d. dirty s = Some d" using inv_no_dirty [OF inv _ r] x by (cases "dirty s") auto
qed

lemma inv_unexpunge:
  assumes inv: "Map_inv s" and r: "rd s k = Some a" and x: "state (entries s a) = kExpunged"
    and d: "dirty s = Some d" and e: "state e = kNull" "ptr e = None"
  shows "Map_inv (s\<lparr>entries := (entries s)(a := e), dirty := Some (AList.update k a d)\<rparr>)"
proof (rule Map_invI)
  let ?s = "s\<lparr>entries := (entries s)(a := e), dirty := Some (AList.update k a d)\<rparr>"
  have dt': "dt ?s = (dt s)(k \<mapsto> a)" using d by simp
  have sub: "rd s k' = Some a' \<or> dt s k' = Some a'" if "rd ?s k' = Some a' \<or> dt ?s k' = Some a'" for k' a'
    using that r d by (auto split: if_splits)
  show "distinct (map fst (read_m ?s))" using inv_distinct_rd [OF inv] by simp
  show "distinct (map fst d')" if "dirty ?s = Some d'" for d'
    using that inv_distinct_dt [OF inv d] by (auto simp: AList.distinct_update)
  show "a' < next_entry ?s \<and> Entry_inv (entries ?s a')"
    if "rd ?s k' = Some a' \<or> dt ?s k' = Some a'" for k' a'
    using inv_ref [OF inv sub [OF that]] e by (simp add: Entry_inv_def)
  show "k1 = k2" if "rd ?s k1 = Some a' \<or> dt ?s k1 = Some a'"
    "rd ?s k2 = Some a' \<or> dt ?s k2 = Some a'" for k1 k2 a'
    using inv_owner [OF inv sub [OF that(1)] sub [OF that(2)]] .
  show "state (entries ?s a') \<noteq> kExpunged \<and> (rd ?s k' = None \<or> rd ?s k' = Some a')"
    if "dt ?s k' = Some a'" for k' a'
  proof (cases "k' = k")
    case True
    then show ?thesis using that r e d by simp
  next
    case False
    then have o: "dt s k' = Some a'" using that d by simp
    then have "a' \<noteq> a" using expunged_not_dirty(1) [OF inv r x, of k'] by auto
    then show ?thesis using inv_dt [OF inv o] by simp
  qed
  show "dt ?s k' = Some a'"
    if "rd ?s k' = Some a'" "state (entries ?s a') \<noteq> kExpunged" "dirty ?s \<noteq> None" for k' a'
  proof (cases "a' = a")
    case True
    then have "k' = k" using inv_owner [OF inv, of k' a k] that r by simp
    then show ?thesis using True d by simp
  next
    case False
    then have "k' \<noteq> k" using that r by auto
    then show ?thesis using inv_rd [OF inv, of k' a'] that False d by simp
  qed
  show "read_amended ?s \<longleftrightarrow> dirty ?s \<noteq> None" using inv_amended [OF inv] d by simp
  show "state (entries ?s a') \<noteq> kExpunged" if "dirty ?s = None" "rd ?s k' = Some a'" for k' a'
    using that by simp
  show "0 \<le> misses ?s" "misses ?s < 2 ^ 31 - 1" using inv_misses [OF inv] by simp_all
qed

lemma contents_unexpunge:
  assumes inv: "Map_inv s" and r: "rd s k = Some a" and x: "state (entries s a) = kExpunged"
    and d: "dirty s = Some d" and e: "state e = kNull"
  shows "contents (s\<lparr>entries := (entries s)(a := e), dirty := Some (AList.update k a d)\<rparr>) = contents s"
proof
  fix k'
  let ?s = "s\<lparr>entries := (entries s)(a := e), dirty := Some (AList.update k a d)\<rparr>"
  show "contents ?s k' = contents s k'"
  proof (cases "k' = k")
    case True
    then show ?thesis using r x e by (simp add: contents_def Entry_value_def)
  next
    case False
    have "a' \<noteq> a" if "rd s k' = Some a' \<or> dt s k' = Some a'" for a'
      using inv_owner [OF inv that, of k] r False by auto
    then show ?thesis using False d
      by (auto simp: contents_def split: option.splits)
  qed
qed

lemma inv_insert_new:
  assumes inv: "Map_inv s" and d: "dirty s = Some d" and r: "rd s k = None"
  and dn: "dt s k = None"
  shows "Map_inv (s\<lparr>entries := (entries s)(next_entry s := NewEntry v),
                    next_entry := Suc (next_entry s),
                    dirty := Some (AList.update k (next_entry s) d)\<rparr>)"
proof (rule Map_invI)
  let ?a = "next_entry s"
  let ?s = "s\<lparr>entries := (entries s)(?a := NewEntry v), next_entry := Suc ?a,
               dirty := Some (AList.update k ?a d)\<rparr>"
  have dt': "dt ?s = (dt s)(k \<mapsto> ?a)" using d by simp
  have fresh: "a' \<noteq> ?a" if "rd s k' = Some a' \<or> dt s k' = Some a'" for k' a'
    using inv_ref [OF inv that] by simp
  have old: "rd s k' = Some a' \<or> dt s k' = Some a'"
    if "rd ?s k' = Some a' \<or> dt ?s k' = Some a'" "k' \<noteq> k" for k' a'
    using that d by (auto split: if_splits)
  have new: "a' = ?a" if "rd ?s k = Some a' \<or> dt ?s k = Some a'" for a'
    using that r d by (auto split: if_splits)
  show "distinct (map fst (read_m ?s))" using inv_distinct_rd [OF inv] by simp
  show "distinct (map fst d')" if "dirty ?s = Some d'" for d'
    using that inv_distinct_dt [OF inv d] by (auto simp: AList.distinct_update)
  show "a' < next_entry ?s \<and> Entry_inv (entries ?s a')"
    if "rd ?s k' = Some a' \<or> dt ?s k' = Some a'" for k' a'
  proof (cases "k' = k")
    case True
    then have "a' = ?a" using new [of a'] that by simp
    then show ?thesis by (simp add: NewEntry_def Entry_ctor_def Entry_inv_def)
  next
    case False
    then show ?thesis using inv_ref [OF inv old [OF that False]] fresh [OF old [OF that False]]
      by simp
  qed
  show "k1 = k2" if "rd ?s k1 = Some a' \<or> dt ?s k1 = Some a'"
    "rd ?s k2 = Some a' \<or> dt ?s k2 = Some a'" for k1 k2 a'
  proof (cases "k1 = k"; cases "k2 = k")
    assume "k1 \<noteq> k" "k2 \<noteq> k"
    then show ?thesis using inv_owner [OF inv old [OF that(1)] old [OF that(2)]] by simp
  next
    assume "k1 = k" "k2 \<noteq> k"
    then show ?thesis using new [of a'] that fresh [OF old [OF that(2)]] by simp
  next
    assume "k1 \<noteq> k" "k2 = k"
    then show ?thesis using new [of a'] that fresh [OF old [OF that(1)]] by simp
  qed simp
  show "state (entries ?s a') \<noteq> kExpunged \<and> (rd ?s k' = None \<or> rd ?s k' = Some a')"
    if "dt ?s k' = Some a'" for k' a'
  proof (cases "k' = k")
    case True
    then show ?thesis using that r d by (simp add: NewEntry_def Entry_ctor_def)
  next
    case False
    then have o: "dt s k' = Some a'" using that d by simp
    then show ?thesis using inv_dt [OF inv o] fresh [of k' a'] by simp
  qed
  show "dt ?s k' = Some a'"
    if "rd ?s k' = Some a'" "state (entries ?s a') \<noteq> kExpunged" "dirty ?s \<noteq> None" for k' a'
  proof -
    have "k' \<noteq> k" using that r by auto
    moreover have "a' \<noteq> ?a" using fresh [of k' a'] that by simp
    ultimately show ?thesis using inv_rd [OF inv, of k' a'] that d by simp
  qed
  show "read_amended ?s \<longleftrightarrow> dirty ?s \<noteq> None" using inv_amended [OF inv] d by simp
  show "state (entries ?s a') \<noteq> kExpunged" if "dirty ?s = None" "rd ?s k' = Some a'" for k' a'
    using that by simp
  show "0 \<le> misses ?s" "misses ?s < 2 ^ 31 - 1" using inv_misses [OF inv] by simp_all
qed

lemma contents_insert_new:
  assumes inv: "Map_inv s" and d: "dirty s = Some d" and r: "rd s k = None"
  shows "contents (s\<lparr>entries := (entries s)(next_entry s := NewEntry v),
                    next_entry := Suc (next_entry s),
                    dirty := Some (AList.update k (next_entry s) d)\<rparr>) = (contents s)(k \<mapsto> v)"
proof
  fix k'
  let ?a = "next_entry s"
  let ?s = "s\<lparr>entries := (entries s)(?a := NewEntry v), next_entry := Suc ?a,
               dirty := Some (AList.update k ?a d)\<rparr>"
  have fresh: "a' \<noteq> ?a" if "rd s k' = Some a' \<or> dt s k' = Some a'" for k' a'
    using inv_ref [OF inv that] by simp
  show "contents ?s k' = ((contents s)(k \<mapsto> v)) k'"
  proof (cases "k' = k")
    case True
    then show ?thesis using r
      by (simp add: contents_def NewEntry_def Entry_ctor_def Entry_value_def)
  next
    case False
    then show ?thesis using d fresh [of k']
      by (auto simp: contents_def split: option.splits)
  qed
qed

lemma inv_erase:
  assumes inv: "Map_inv s" and d: "dirty s = Some d" and r: "rd s k = None"
  shows "Map_inv (s\<lparr>dirty := Some (AList.delete k d)\<rparr>)"
proof (rule Map_invI)
  let ?s = "s\<lparr>dirty := Some (AList.delete k d)\<rparr>"
  have dt': "dt ?s = (dt s)(k := None)" using d by simp
  have sub: "rd s k' = Some a' \<or> dt s k' = Some a'" if "rd ?s k' = Some a' \<or> dt ?s k' = Some a'" for k' a'
    using that d by (auto split: if_splits)
  show "distinct (map fst (read_m ?s))" using inv_distinct_rd [OF inv] by simp
  show "distinct (map fst d')" if "dirty ?s = Some d'" for d'
    using that inv_distinct_dt [OF inv d] by (auto simp: AList.distinct_delete)
  show "a' < next_entry ?s \<and> Entry_inv (entries ?s a')"
    if "rd ?s k' = Some a' \<or> dt ?s k' = Some a'" for k' a'
    using inv_ref [OF inv sub [OF that]] by simp
  show "k1 = k2" if "rd ?s k1 = Some a' \<or> dt ?s k1 = Some a'"
    "rd ?s k2 = Some a' \<or> dt ?s k2 = Some a'" for k1 k2 a'
    using inv_owner [OF inv sub [OF that(1)] sub [OF that(2)]] .
  show "state (entries ?s a') \<noteq> kExpunged \<and> (rd ?s k' = None \<or> rd ?s k' = Some a')"
    if "dt ?s k' = Some a'" for k' a'
  proof -
    have o: "dt s k' = Some a'" using that d by (simp split: if_splits)
    show ?thesis using inv_dt [OF inv o] by simp
  qed
  show "dt ?s k' = Some a'"
    if "rd ?s k' = Some a'" "state (entries ?s a') \<noteq> kExpunged" "dirty ?s \<noteq> None" for k' a'
  proof -
    have "k' \<noteq> k" using that r by auto
    then show ?thesis using inv_rd [OF inv, of k' a'] that d by simp
  qed
  show "read_amended ?s \<longleftrightarrow> dirty ?s \<noteq> None" using inv_amended [OF inv] d by simp
  show "state (entries ?s a') \<noteq> kExpunged" if "dirty ?s = None" "rd ?s k' = Some a'" for k' a'
    using that by simp
  show "0 \<le> misses ?s" "misses ?s < 2 ^ 31 - 1" using inv_misses [OF inv] by simp_all
qed

lemma contents_erase:
  assumes d: "dirty s = Some d" and r: "rd s k = None"
  shows "contents (s\<lparr>dirty := Some (AList.delete k d)\<rparr>) = (contents s)(k := None)"
proof
  fix k'
  show "contents (s\<lparr>dirty := Some (AList.delete k d)\<rparr>) k' = ((contents s)(k := None)) k'"
    using d r by (auto simp: contents_def split: option.splits)
qed

section \<open>Building the overlay\<close>

text \<open>
  The loop of \<open>DirtyLocked\<close> in closed form: the store afterwards is \<open>expunge_all\<close>, and
  the new overlay holds the published nodes whose entry is Present, in table order.
\<close>

lemma DirtyLocked_loop_fst:
  "fst (DirtyLocked_loop t h d) = expunge_all t h"
proof (induction t arbitrary: h d)
  case Nil
  show ?case by (rule ext) (simp add: expunge_all_def)
next
  case (Cons p t)
  obtain k a where p: "p = (k, a)" by (cases p)
  show ?case
  proof (rule ext)
    fix a'
    show "fst (DirtyLocked_loop (p # t) h d) a' = expunge_all (p # t) h a'"
      unfolding p
      by (cases "state (h a)")
         (auto simp: Cons.IH TryExpungeLocked_eq expunge_all_def)
  qed
qed

lemma state_expunge_all_kValue [simp]:
  "state (expunge_all t h a) = kValue \<longleftrightarrow> state (h a) = kValue"
  by (simp add: expunge_all_def)

lemma DirtyLocked_loop_snd:
  assumes "distinct (map fst t)" "fst ` set t \<inter> fst ` set d = {}"
  shows "snd (DirtyLocked_loop t h d) = d @ filter (\<lambda>(k, a). state (h a) = kValue) t"
  using assms
proof (induction t arbitrary: h d)
  case Nil
  show ?case by simp
next
  case (Cons p t)
  obtain k a where p: "p = (k, a)" by (cases p)
  have k: "map_of d k = None"
    using Cons.prems(2) unfolding p by (auto simp: map_of_eq_None_iff)
  have st: "(state ((h(a := e)) a') = kValue) = (state (h a') = kValue)"
    if "state e = kValue \<longleftrightarrow> state (h a) = kValue" for e a'
    using that by simp
  show ?case
  proof (cases "state (h a) = kValue")
    case True
    have "fst ` set t \<inter> fst ` set (d @ [(k, a)]) = {}"
      using Cons.prems unfolding p by auto
    with Cons.prems(1) have
      "snd (DirtyLocked_loop t (h(a := h a)) (d @ [(k, a)])) =
         (d @ [(k, a)]) @ filter (\<lambda>(k, a'). state ((h(a := h a)) a') = kValue) t"
      by (intro Cons.IH) simp_all
    then show ?thesis using True k unfolding p
      by (simp add: TryExpungeLocked_eq emplace_def)
  next
    case False
    define e where "e = snd (TryExpungeLocked (h a))"
    have e: "TryExpungeLocked (h a) = (True, e)" "state e \<noteq> kValue"
      using False unfolding e_def by (cases "state (h a)"; simp add: TryExpungeLocked_eq)+
    have "fst ` set t \<inter> fst ` set d = {}"
      using Cons.prems unfolding p by auto
    with Cons.prems(1) have
      "snd (DirtyLocked_loop t (h(a := e)) d) =
         d @ filter (\<lambda>(k, a'). state ((h(a := e)) a') = kValue) t"
      by (intro Cons.IH) simp_all
    moreover have "(state ((h(a := e)) a') = kValue) = (state (h a') = kValue)" for a'
      using e(2) False by simp
    ultimately show ?thesis using False e unfolding p by simp
  qed
qed

lemma DirtyLocked_eq:
  assumes "dirty s = None" "distinct (map fst (read_m s))"
  shows "DirtyLocked s =
           s\<lparr>entries := expunge_all (read_m s) (entries s),
             dirty := Some (filter (\<lambda>(k, a). state (entries s a) = kValue) (read_m s))\<rparr>"
proof -
  have "DirtyLocked_loop (read_m s) (entries s) [] =
          (expunge_all (read_m s) (entries s),
           filter (\<lambda>(k, a). state (entries s a) = kValue) (read_m s))"
    using DirtyLocked_loop_fst [of "read_m s" "entries s" "[]"]
          DirtyLocked_loop_snd [of "read_m s" "[]" "entries s"] assms(2)
    by (simp add: prod_eq_iff)
  then show ?thesis using assms(1) by (simp add: DirtyLocked_def)
qed

lemma map_of_filter_kValue:
  assumes "distinct (map fst t)"
  shows "map_of (filter (\<lambda>(k, a). state (h a) = kValue) t) k =
           (case map_of t k of
              None \<Rightarrow> None
            | Some a \<Rightarrow> if state (h a) = kValue then Some a else None)"
  using assms
proof (induction t)
  case Nil
  show ?case by simp
next
  case (Cons p t)
  obtain k' a' where p: "p = (k', a')" by (cases p)
  have "map_of t k' = None" using Cons.prems unfolding p by (simp add: map_of_eq_None_iff)
  then show ?case using Cons unfolding p
    by (auto split: option.splits)
qed

lemma rd_in_table: "rd s k = Some a \<Longrightarrow> a \<in> snd ` set (read_m s)"
  unfolding rd_def by (metis map_of_SomeD image_eqI snd_conv)

lemma inv_DirtyLocked:
  assumes inv: "Map_inv s" and d: "dirty s = None"
  shows "Map_inv ((DirtyLocked s)\<lparr>read_amended := True\<rparr>)"
proof -
  let ?h = "expunge_all (read_m s) (entries s)"
  let ?d = "filter (\<lambda>(k, a). state (entries s a) = kValue) (read_m s)"
  let ?s = "s\<lparr>entries := ?h, dirty := Some ?d, read_amended := True\<rparr>"
  have eq: "(DirtyLocked s)\<lparr>read_amended := True\<rparr> = ?s"
    using DirtyLocked_eq [OF d inv_distinct_rd [OF inv]] by simp
  have dt': "map_of ?d k = (case rd s k of None \<Rightarrow> None
                        | Some a \<Rightarrow> if state (entries s a) = kValue then Some a else None)" for k
    using map_of_filter_kValue [OF inv_distinct_rd [OF inv]] by (simp add: rd_def)
  have sub: "rd s k = Some a" if "rd ?s k = Some a \<or> dt ?s k = Some a" for k a
    using that by (auto simp: dt' split: option.splits if_splits)
  have "Map_inv ?s"
  proof (rule Map_invI)
    show "distinct (map fst (read_m ?s))" using inv_distinct_rd [OF inv] by simp
    show "distinct (map fst d')" if "dirty ?s = Some d'" for d'
      using that inv_distinct_rd [OF inv] by (auto simp: distinct_map_filter)
    show "a < next_entry ?s \<and> Entry_inv (entries ?s a)"
      if "rd ?s k = Some a \<or> dt ?s k = Some a" for k a
      using inv_ref [OF inv, of k a] sub [OF that]
      by (auto simp: expunge_all_def Entry_inv_def)
    show "k1 = k2" if "rd ?s k1 = Some a \<or> dt ?s k1 = Some a"
      "rd ?s k2 = Some a \<or> dt ?s k2 = Some a" for k1 k2 a
      using inv_owner [OF inv, of k1 a k2] sub [OF that(1)] sub [OF that(2)] by simp
    show "state (entries ?s a) \<noteq> kExpunged \<and> (rd ?s k = None \<or> rd ?s k = Some a)"
      if "dt ?s k = Some a" for k a
    proof -
      have "rd s k = Some a" "state (entries s a) = kValue"
        using that by (auto simp: dt' split: option.splits if_splits)
      then show ?thesis by (simp add: expunge_all_def)
    qed
    show "dt ?s k = Some a"
      if "rd ?s k = Some a" "state (entries ?s a) \<noteq> kExpunged" "dirty ?s \<noteq> None" for k a
    proof -
      have r: "rd s k = Some a" using that by simp
      have "state (entries s a) = kValue"
        using that(2) rd_in_table [OF r] by (cases "state (entries s a)") (auto simp: expunge_all_def)
      with r show ?thesis by (simp add: dt')
    qed
    show "read_amended ?s \<longleftrightarrow> dirty ?s \<noteq> None" by simp
    show "state (entries ?s a) \<noteq> kExpunged" if "dirty ?s = None" "rd ?s k = Some a" for k a
      using that by simp
    show "0 \<le> misses ?s" "misses ?s < 2 ^ 31 - 1" using inv_misses [OF inv] by simp_all
  qed
  then show ?thesis by (simp only: eq)
qed

lemma Entry_value_expunge_all [simp]: "Entry_value (expunge_all t h a) = Entry_value (h a)"
  by (simp add: Entry_value_def expunge_all_def)

lemma DirtyLocked_facts:
  assumes inv: "Map_inv s" and d: "dirty s = None"
  shows "contents ((DirtyLocked s)\<lparr>read_amended := True\<rparr>) = contents s"
    and "rd ((DirtyLocked s)\<lparr>read_amended := True\<rparr>) = rd s"
    and "\<exists>d'. dirty ((DirtyLocked s)\<lparr>read_amended := True\<rparr>) = Some d'"
    and "rd s k = None \<Longrightarrow> dt ((DirtyLocked s)\<lparr>read_amended := True\<rparr>) k = None"
    and "next_entry ((DirtyLocked s)\<lparr>read_amended := True\<rparr>) = next_entry s"
proof -
  let ?h = "expunge_all (read_m s) (entries s)"
  let ?d = "filter (\<lambda>(k, a). state (entries s a) = kValue) (read_m s)"
  let ?s = "s\<lparr>entries := ?h, dirty := Some ?d, read_amended := True\<rparr>"
  have eq: "(DirtyLocked s)\<lparr>read_amended := True\<rparr> = ?s"
    using DirtyLocked_eq [OF d inv_distinct_rd [OF inv]] by simp
  have dt': "map_of ?d k = (case rd s k of None \<Rightarrow> None
                        | Some a \<Rightarrow> if state (entries s a) = kValue then Some a else None)" for k
    using map_of_filter_kValue [OF inv_distinct_rd [OF inv]] by (simp add: rd_def)
  show "rd ((DirtyLocked s)\<lparr>read_amended := True\<rparr>) = rd s" unfolding eq by simp
  show "\<exists>d'. dirty ((DirtyLocked s)\<lparr>read_amended := True\<rparr>) = Some d'" unfolding eq by simp
  show "next_entry ((DirtyLocked s)\<lparr>read_amended := True\<rparr>) = next_entry s" unfolding eq by simp
  show "rd s k = None \<Longrightarrow> dt ((DirtyLocked s)\<lparr>read_amended := True\<rparr>) k = None"
    unfolding eq by (simp add: dt')
  have "contents ?s k = contents s k" for k
    unfolding contents_def using d
    by (cases "rd s k") (simp_all add: dt')
  then show "contents ((DirtyLocked s)\<lparr>read_amended := True\<rparr>) = contents s"
    unfolding eq by (rule ext)
qed

section \<open>Store\<close>

text \<open>
  \<open>Store\<close> by the path it takes, and its effect on the map the state stands for.
\<close>

lemma dt_apply: "dt s k = (case dirty s of None \<Rightarrow> None | Some d \<Rightarrow> map_of d k)"
  by (simp add: dt_def split: option.splits)

lemma Store_hit:
  assumes "rd s k = Some a" "state (entries s a) \<noteq> kExpunged"
  shows "Store k v s = Some (s\<lparr>entries := (entries s)(a := (entries s a)\<lparr>ptr := Some v, state := kValue\<rparr>)\<rparr>)"
  using assms by (simp add: Store_def rd_def TryStore_eq)

lemma Store_unexpunge:
  assumes "rd s k = Some a" "state (entries s a) = kExpunged" "dirty s = Some d"
  shows "Store k v s =
           Some (s\<lparr>entries := (entries s)(a := (entries s a)\<lparr>ptr := Some v, state := kValue\<rparr>),
                   dirty := Some (AList.update k a d)\<rparr>)"
  using assms
  by (simp add: Store_def Store_locked_def rd_def TryStore_eq UnexpungeLocked_eq StoreLocked_eq)

lemma Store_overlay:
  assumes "rd s k = None" "dt s k = Some a"
  shows "Store k v s = Some (s\<lparr>entries := (entries s)(a := (entries s a)\<lparr>ptr := Some v, state := kValue\<rparr>)\<rparr>)"
  using assms
  by (simp add: Store_def Store_locked_def rd_def dt_apply StoreLocked_eq)

lemma Store_new:
  assumes "rd s k = None" "dt s k = None"
  shows "Store k v s =
           (let s1 = (if \<not> read_amended s then (DirtyLocked s)\<lparr>read_amended := True\<rparr> else s)
            in case dirty s1 of
                 None \<Rightarrow> None
               | Some d \<Rightarrow>
                   Some (s1\<lparr>entries := (entries s1)(next_entry s1 := NewEntry v),
                           next_entry := Suc (next_entry s1),
                           dirty := Some (AList.update k (next_entry s1) d)\<rparr>))"
  using assms
  by (simp add: Store_def Store_locked_def rd_def dt_apply Let_def split: option.splits)

lemma Entry_inv_stored [simp]: "Entry_inv (e\<lparr>ptr := Some v, state := kValue\<rparr>)"
  by (simp add: Entry_inv_def)

lemma Entry_value_stored [simp]: "Entry_value (e\<lparr>ptr := Some v, state := kValue\<rparr>) = Some v"
  by (simp add: Entry_value_def)

lemma Store_correct:
  assumes inv: "Map_inv s"
  shows "\<exists>s'. Store k v s = Some s' \<and> Map_inv s' \<and> contents s' = (contents s)(k \<mapsto> v)"
proof (cases "rd s k")
  case (Some a)
  show ?thesis
  proof (cases "state (entries s a) = kExpunged")
    case False
    show ?thesis
      using Store_hit [OF Some False, of v]
        inv_set_entry [OF inv disjI1 [OF Some] False, of "(entries s a)\<lparr>ptr := Some v, state := kValue\<rparr>"]
        contents_set_entry [OF inv disjI1 [OF Some], of "(entries s a)\<lparr>ptr := Some v, state := kValue\<rparr>"]
      by simp
  next
    case True
    obtain d where d: "dirty s = Some d" using expunged_not_dirty(2) [OF inv Some True] by blast
    let ?e = "(entries s a)\<lparr>ptr := None, state := kNull\<rparr>"
    let ?s1 = "s\<lparr>entries := (entries s)(a := ?e), dirty := Some (AList.update k a d)\<rparr>"
    have inv1: "Map_inv ?s1" by (rule inv_unexpunge [OF inv Some True d]) simp_all
    have c1: "contents ?s1 = contents s" by (rule contents_unexpunge [OF inv Some True d]) simp
    have r1: "rd ?s1 k = Some a" using Some by simp
    let ?e2 = "(entries s a)\<lparr>ptr := Some v, state := kValue\<rparr>"
    have eq: "?s1\<lparr>entries := (entries ?s1)(a := ?e2)\<rparr> =
                s\<lparr>entries := (entries s)(a := ?e2), dirty := Some (AList.update k a d)\<rparr>"
      by simp
    have "Map_inv (?s1\<lparr>entries := (entries ?s1)(a := ?e2)\<rparr>)"
      by (rule inv_set_entry [OF inv1 disjI1 [OF r1]]) simp_all
    moreover have "contents (?s1\<lparr>entries := (entries ?s1)(a := ?e2)\<rparr>) = (contents s)(k \<mapsto> v)"
      using contents_set_entry [OF inv1 disjI1 [OF r1], of ?e2] c1 by simp
    ultimately show ?thesis
      unfolding eq using Store_unexpunge [OF Some True d, of v] by simp
  qed
next
  case None
  show ?thesis
  proof (cases "dt s k")
    case (Some a)
    have ne: "state (entries s a) \<noteq> kExpunged" using inv_dt [OF inv Some] by simp
    show ?thesis
      using Store_overlay [OF None Some, of v]
        inv_set_entry [OF inv disjI2 [OF Some] ne, of "(entries s a)\<lparr>ptr := Some v, state := kValue\<rparr>"]
        contents_set_entry [OF inv disjI2 [OF Some], of "(entries s a)\<lparr>ptr := Some v, state := kValue\<rparr>"]
      by simp
  next
    case dn: None
    define s1 where "s1 = (if \<not> read_amended s then (DirtyLocked s)\<lparr>read_amended := True\<rparr> else s)"
    have s1: "Map_inv s1 \<and> contents s1 = contents s \<and> rd s1 k = None \<and> dt s1 k = None \<and>
                (\<exists>d. dirty s1 = Some d)"
    proof (cases "read_amended s")
      case True
      then show ?thesis using inv None dn inv_amended [OF inv] by (auto simp: s1_def)
    next
      case False
      then have d: "dirty s = None" using inv_amended [OF inv] by simp
      show ?thesis
        using False inv_DirtyLocked [OF inv d] DirtyLocked_facts [OF inv d] None
        by (simp add: s1_def)
    qed
    then obtain d where d: "dirty s1 = Some d" by blast
    show ?thesis
      using Store_new [OF None dn, of v] d s1
        inv_insert_new [of s1 d k v] contents_insert_new [of s1 d k v]
      by (simp add: s1_def [symmetric] Let_def)
  qed
qed

section \<open>Load and Delete\<close>

text \<open>
  \<open>Load\<close> returns what \<open>contents\<close> says and leaves it unchanged; \<open>Delete\<close> returns it
  and removes the key.
\<close>

lemma read_entry:
  assumes "Entry_inv e"
  shows "(case Entry_Load e of
            (p, loaded) \<Rightarrow>
              if loaded then (case p of None \<Rightarrow> None | Some v \<Rightarrow> Some (Some v, s'))
              else Some (None, s')) = Some (Entry_value e, s')"
  using assms by (auto simp: Entry_Load_eq Entry_inv_def Entry_value_def)

lemma Load_hit:
  assumes "rd s k = Some a" "Entry_inv (entries s a)"
  shows "Load k s = Some (Entry_value (entries s a), s)"
  using assms(1) read_entry [OF assms(2), of s] by (simp add: Load_def rd_def)

lemma Load_absent:
  assumes "rd s k = None" "\<not> read_amended s"
  shows "Load k s = Some (None, s)"
  using assms by (simp add: Load_def rd_def)

lemma Load_miss:
  assumes "rd s k = None" "read_amended s" "dirty s = Some d" "MissLocked s = Some s'"
    "\<And>a. map_of d k = Some a \<Longrightarrow> Entry_inv (entries s' a)"
  shows "Load k s = Some ((case map_of d k of None \<Rightarrow> None | Some a \<Rightarrow> Entry_value (entries s' a)), s')"
proof (cases "map_of d k")
  case None
  then show ?thesis using assms(1-4) by (simp add: Load_def Load_locked_def rd_def)
next
  case (Some a)
  then show ?thesis using assms(1-4) read_entry [OF assms(5) [OF Some], of s']
    by (simp add: Load_def Load_locked_def rd_def)
qed

lemma Load_correct:
  assumes inv: "Map_inv s"
  shows "\<exists>s'. Load k s = Some (contents s k, s') \<and> Map_inv s' \<and> contents s' = contents s"
proof (cases "rd s k")
  case (Some a)
  then show ?thesis
    using Load_hit [OF Some] inv_ref [OF inv disjI1 [OF Some]] inv by (simp add: contents_def)
next
  case None
  show ?thesis
  proof (cases "read_amended s")
    case False
    then have "dirty s = None" using inv_amended [OF inv] by simp
    then show ?thesis using Load_absent [OF None False] inv None by (simp add: contents_def)
  next
    case True
    then obtain d where d: "dirty s = Some d" using inv_amended [OF inv] by auto
    obtain s' where m: "MissLocked s = Some s'" "Map_inv s'" "contents s' = contents s"
      "entries s' = entries s"
      using MissLocked_inv [OF inv d] by blast
    have e: "Entry_inv (entries s' a)" if "map_of d k = Some a" for a
      using inv_ref [OF inv, of k a] that d m(4) by simp
    show ?thesis
      using Load_miss [OF None True d m(1) e] m None d
      by (simp add: contents_def cong: option.case_cong)
  qed
qed

lemma Entry_Delete_inv:
  assumes "Entry_inv e"
  shows "Entry_Delete e =
           Some (Entry_value e, if state e = kValue then e\<lparr>ptr := None, state := kNull\<rparr> else e)"
  using assms by (auto simp: Entry_Delete_eq Entry_inv_def Entry_value_def)

lemma Delete_hit:
  assumes "rd s k = Some a" "Entry_inv (entries s a)"
  shows "Delete k s =
           Some (Entry_value (entries s a),
                 s\<lparr>entries := (entries s)(a := if state (entries s a) = kValue
                                                then (entries s a)\<lparr>ptr := None, state := kNull\<rparr>
                                                else entries s a)\<rparr>)"
  using assms(1) Entry_Delete_inv [OF assms(2)] by (simp add: Delete_def rd_def)

lemma Delete_absent:
  assumes "rd s k = None" "\<not> read_amended s"
  shows "Delete k s = Some (None, s)"
  using assms by (simp add: Delete_def rd_def)

lemma Delete_miss_absent:
  assumes "rd s k = None" "read_amended s" "dirty s = Some d" "map_of d k = None"
    "MissLocked s = Some s'"
  shows "Delete k s = Some (None, s')"
  using assms by (simp add: Delete_def Delete_locked_def rd_def)

lemma Delete_miss_overlay:
  assumes "rd s k = None" "read_amended s" "dirty s = Some d" "map_of d k = Some a"
    "MissLocked (s\<lparr>dirty := Some (AList.delete k d)\<rparr>) = Some s'" "Entry_inv (entries s' a)"
  shows "Delete k s =
           Some (Entry_value (entries s' a),
                 s'\<lparr>entries := (entries s')(a := if state (entries s' a) = kValue
                                                 then (entries s' a)\<lparr>ptr := None, state := kNull\<rparr>
                                                 else entries s' a)\<rparr>)"
  using assms(1-5) Entry_Delete_inv [OF assms(6)]
  by (simp add: Delete_def Delete_locked_def rd_def)

lemma Entry_deleted [simp]:
  "Entry_inv (e\<lparr>ptr := None, state := kNull\<rparr>)"
  "Entry_value (e\<lparr>ptr := None, state := kNull\<rparr>) = None"
  by (simp_all add: Entry_inv_def Entry_value_def)

lemma Delete_correct:
  assumes inv: "Map_inv s"
  shows "\<exists>s'. Delete k s = Some (contents s k, s') \<and> Map_inv s' \<and>
               contents s' = (contents s)(k := None)"
proof (cases "rd s k")
  case (Some a)
  have ei: "Entry_inv (entries s a)" using inv_ref [OF inv disjI1 [OF Some]] by simp
  have c: "contents s k = Entry_value (entries s a)" using Some by (simp add: contents_def)
  show ?thesis
  proof (cases "state (entries s a) = kValue")
    case True
    let ?e = "(entries s a)\<lparr>ptr := None, state := kNull\<rparr>"
    have "Map_inv (s\<lparr>entries := (entries s)(a := ?e)\<rparr>)"
      by (rule inv_set_entry [OF inv disjI1 [OF Some]]) (simp_all add: True)
    moreover have "contents (s\<lparr>entries := (entries s)(a := ?e)\<rparr>) = (contents s)(k := None)"
      using contents_set_entry [OF inv disjI1 [OF Some], of ?e] by simp
    ultimately show ?thesis using Delete_hit [OF Some ei] True c by simp
  next
    case False
    then have "contents s k = None" using c by (simp add: Entry_value_def)
    then have "(contents s)(k := None) = contents s" by (simp add: fun_upd_idem)
    then show ?thesis using Delete_hit [OF Some ei] False c inv by simp
  qed
next
  case None
  show ?thesis
  proof (cases "read_amended s")
    case False
    then have "dirty s = None" using inv_amended [OF inv] by simp
    then have "contents s k = None" using None by (simp add: contents_def)
    then have "(contents s)(k := None) = contents s" "contents s k = None"
      by (simp_all add: fun_upd_idem)
    then show ?thesis using Delete_absent [OF None False] inv by simp
  next
    case True
    then obtain d where d: "dirty s = Some d" using inv_amended [OF inv] by auto
    show ?thesis
    proof (cases "map_of d k")
      case dn: None
      then have "contents s k = None" using None d by (simp add: contents_def)
      then have c: "(contents s)(k := None) = contents s" "contents s k = None"
        by (simp_all add: fun_upd_idem)
      obtain s' where m: "MissLocked s = Some s'" "Map_inv s'" "contents s' = contents s"
        using MissLocked_inv [OF inv d] by blast
      show ?thesis using Delete_miss_absent [OF None True d dn m(1)] m c by simp
    next
      case (Some a)
      let ?s1 = "s\<lparr>dirty := Some (AList.delete k d)\<rparr>"
      have inv1: "Map_inv ?s1" by (rule inv_erase [OF inv d None])
      have c1: "contents ?s1 = (contents s)(k := None)" by (rule contents_erase [OF d None])
      have d1: "dirty ?s1 = Some (AList.delete k d)" by simp
      have dk: "dt s k = Some a" using Some d by simp
      have free1: "rd ?s1 k' \<noteq> Some a \<and> dt ?s1 k' \<noteq> Some a" for k'
      proof (cases "k' = k")
        case True
        then show ?thesis using None by simp
      next
        case False
        then show ?thesis using inv_owner [OF inv disjI2 [OF dk], of k'] d by auto
      qed
      obtain s' where m: "MissLocked ?s1 = Some s'" "Map_inv s'" "contents s' = contents ?s1"
        "entries s' = entries ?s1"
        "\<And>k' a'. rd s' k' = Some a' \<or> dt s' k' = Some a' \<Longrightarrow>
                   rd ?s1 k' = Some a' \<or> dt ?s1 k' = Some a'"
        using MissLocked_inv [OF inv1 d1] by blast
      have free: "rd s' k' \<noteq> Some a \<and> dt s' k' \<noteq> Some a" for k'
        using m(5) [of k' a] free1 [of k'] by blast
      have ei: "Entry_inv (entries s' a)" using inv_ref [OF inv disjI2 [OF dk]] m(4) by simp
      have c: "contents s k = Entry_value (entries s' a)"
        using None dk m(4) by (simp add: contents_def)
      show ?thesis
        using Delete_miss_overlay [OF None True d Some m(1) ei] c
          inv_set_unreferenced [OF m(2) free] contents_set_unreferenced [OF free] m(3) c1
        by simp
    qed
  qed
qed

section \<open>LoadOrStore\<close>

text \<open>
  \<open>LoadOrStore\<close> by the path it takes: it returns the value of a present key and stores
  the given value otherwise.
\<close>

lemma LoadOrStore_hit_present:
  assumes "rd s k = Some a" "state (entries s a) = kValue" "ptr (entries s a) = Some v0"
  shows "LoadOrStore k v s = Some ((v0, True), s)"
  using assms by (simp add: LoadOrStore_def rd_def TryLoadOrStore_eq)

lemma LoadOrStore_hit_null:
  assumes "rd s k = Some a" "state (entries s a) = kNull"
  shows "LoadOrStore k v s =
           Some ((v, False),
                 s\<lparr>entries := (entries s)(a := (entries s a)\<lparr>ptr := Some v, state := kValue\<rparr>)\<rparr>)"
  using assms by (simp add: LoadOrStore_def rd_def TryLoadOrStore_eq)

lemma LoadOrStore_unexpunge:
  assumes "rd s k = Some a" "state (entries s a) = kExpunged" "dirty s = Some d"
  shows "LoadOrStore k v s =
           Some ((v, False),
                 s\<lparr>entries := (entries s)(a := (entries s a)\<lparr>ptr := Some v, state := kValue\<rparr>),
                   dirty := Some (AList.update k a d)\<rparr>)"
  using assms
  by (simp add: LoadOrStore_def LoadOrStore_locked_def rd_def TryLoadOrStore_eq UnexpungeLocked_eq)

lemma LoadOrStore_overlay_present:
  assumes "rd s k = None" "dt s k = Some a" "state (entries s a) = kValue"
    "ptr (entries s a) = Some v0" "MissLocked s = Some s'"
  shows "LoadOrStore k v s = Some ((v0, True), s')"
  using assms
  by (simp add: LoadOrStore_def LoadOrStore_locked_def rd_def dt_apply TryLoadOrStore_eq)

lemma LoadOrStore_overlay_null:
  assumes "rd s k = None" "dt s k = Some a" "state (entries s a) = kNull"
    "MissLocked (s\<lparr>entries := (entries s)(a := (entries s a)\<lparr>ptr := Some v, state := kValue\<rparr>)\<rparr>)
       = Some s'"
  shows "LoadOrStore k v s = Some ((v, False), s')"
  using assms
  by (simp add: LoadOrStore_def LoadOrStore_locked_def rd_def dt_apply TryLoadOrStore_eq)

lemma LoadOrStore_new:
  assumes "rd s k = None" "dt s k = None"
  shows "LoadOrStore k v s =
           (let s1 = (if \<not> read_amended s then (DirtyLocked s)\<lparr>read_amended := True\<rparr> else s)
            in case dirty s1 of
                 None \<Rightarrow> None
               | Some d \<Rightarrow>
                   Some ((v, False),
                         s1\<lparr>entries := (entries s1)(next_entry s1 := NewEntry v),
                            next_entry := Suc (next_entry s1),
                            dirty := Some (AList.update k (next_entry s1) d)\<rparr>))"
  using assms
  by (simp add: LoadOrStore_def LoadOrStore_locked_def rd_def dt_apply Let_def split: option.splits)

lemma Entry_value_cases:
  assumes "Entry_inv e"
  obtains (present) v0 where "state e = kValue" "ptr e = Some v0" "Entry_value e = Some v0"
  | (null) "state e = kNull" "Entry_value e = None"
  | (expunged) "state e = kExpunged" "Entry_value e = None"
  using assms by (cases "state e") (auto simp: Entry_inv_def Entry_value_def)

lemma LoadOrStore_correct:
  assumes inv: "Map_inv s"
  shows "\<exists>s'. LoadOrStore k v s =
                 Some ((case contents s k of None \<Rightarrow> (v, False) | Some v0 \<Rightarrow> (v0, True)), s') \<and>
               Map_inv s' \<and>
               contents s' = (case contents s k of
                                None \<Rightarrow> (contents s)(k \<mapsto> v)
                              | Some v0 \<Rightarrow> contents s)"
proof (cases "rd s k")
  case (Some a)
  have ei: "Entry_inv (entries s a)" using inv_ref [OF inv disjI1 [OF Some]] by simp
  have c: "contents s k = Entry_value (entries s a)" using Some by (simp add: contents_def)
  let ?e2 = "(entries s a)\<lparr>ptr := Some v, state := kValue\<rparr>"
  from ei show ?thesis
  proof (cases rule: Entry_value_cases)
    case (present v0)
    then show ?thesis using LoadOrStore_hit_present [OF Some present(1,2), of v] c inv by simp
  next
    case null
    have "Map_inv (s\<lparr>entries := (entries s)(a := ?e2)\<rparr>)"
      by (rule inv_set_entry [OF inv disjI1 [OF Some]]) (simp_all add: null)
    moreover have "contents (s\<lparr>entries := (entries s)(a := ?e2)\<rparr>) = (contents s)(k \<mapsto> v)"
      using contents_set_entry [OF inv disjI1 [OF Some], of ?e2] by simp
    ultimately show ?thesis using LoadOrStore_hit_null [OF Some null(1), of v] c null(2) by simp
  next
    case expunged
    obtain d where d: "dirty s = Some d"
      using expunged_not_dirty(2) [OF inv Some expunged(1)] by blast
    let ?e = "(entries s a)\<lparr>ptr := None, state := kNull\<rparr>"
    let ?s1 = "s\<lparr>entries := (entries s)(a := ?e), dirty := Some (AList.update k a d)\<rparr>"
    have inv1: "Map_inv ?s1" by (rule inv_unexpunge [OF inv Some expunged(1) d]) simp_all
    have c1: "contents ?s1 = contents s"
      by (rule contents_unexpunge [OF inv Some expunged(1) d]) simp
    have r1: "rd ?s1 k = Some a" using Some by simp
    have eq: "?s1\<lparr>entries := (entries ?s1)(a := ?e2)\<rparr> =
                s\<lparr>entries := (entries s)(a := ?e2), dirty := Some (AList.update k a d)\<rparr>"
      by simp
    have "Map_inv (?s1\<lparr>entries := (entries ?s1)(a := ?e2)\<rparr>)"
      by (rule inv_set_entry [OF inv1 disjI1 [OF r1]]) simp_all
    moreover have "contents (?s1\<lparr>entries := (entries ?s1)(a := ?e2)\<rparr>) = (contents s)(k \<mapsto> v)"
      using contents_set_entry [OF inv1 disjI1 [OF r1], of ?e2] c1 by simp
    ultimately show ?thesis
      unfolding eq using LoadOrStore_unexpunge [OF Some expunged(1) d, of v] c expunged(2) by simp
  qed
next
  case None
  show ?thesis
  proof (cases "dt s k")
    case (Some a)
    have ei: "Entry_inv (entries s a)" using inv_ref [OF inv disjI2 [OF Some]] by simp
    have c: "contents s k = Entry_value (entries s a)" using None Some by (simp add: contents_def)
    have ne: "state (entries s a) \<noteq> kExpunged" using inv_dt [OF inv Some] by simp
    obtain d where d: "dirty s = Some d" using Some by (cases "dirty s") simp_all
    let ?e2 = "(entries s a)\<lparr>ptr := Some v, state := kValue\<rparr>"
    from ei show ?thesis
    proof (cases rule: Entry_value_cases)
      case (present v0)
      obtain s' where m: "MissLocked s = Some s'" "Map_inv s'" "contents s' = contents s"
        using MissLocked_inv [OF inv d] by blast
      show ?thesis
        using LoadOrStore_overlay_present [OF None Some present(1,2) m(1), of v] m c present(3)
        by simp
    next
      case null
      let ?s1 = "s\<lparr>entries := (entries s)(a := ?e2)\<rparr>"
      have inv1: "Map_inv ?s1"
        by (rule inv_set_entry [OF inv disjI2 [OF Some]]) (simp_all add: null)
      have c1: "contents ?s1 = (contents s)(k \<mapsto> v)"
        using contents_set_entry [OF inv disjI2 [OF Some], of ?e2] by simp
      have d1: "dirty ?s1 = Some d" using d by simp
      obtain s' where m: "MissLocked ?s1 = Some s'" "Map_inv s'" "contents s' = contents ?s1"
        using MissLocked_inv [OF inv1 d1] by blast
      show ?thesis
        using LoadOrStore_overlay_null [OF None Some null(1) m(1)] m(2,3) c1 c null(2) by simp
    next
      case expunged
      then show ?thesis using ne by simp
    qed
  next
    case dn: None
    have c: "contents s k = None" using None dn by (simp add: contents_def)
    define s1 where "s1 = (if \<not> read_amended s then (DirtyLocked s)\<lparr>read_amended := True\<rparr> else s)"
    have s1: "Map_inv s1 \<and> contents s1 = contents s \<and> rd s1 k = None \<and> dt s1 k = None \<and>
                (\<exists>d. dirty s1 = Some d)"
    proof (cases "read_amended s")
      case True
      then show ?thesis using inv None dn inv_amended [OF inv] by (auto simp: s1_def)
    next
      case False
      then have d: "dirty s = None" using inv_amended [OF inv] by simp
      show ?thesis
        using False inv_DirtyLocked [OF inv d] DirtyLocked_facts [OF inv d] None
        by (simp add: s1_def)
    qed
    then obtain d where d: "dirty s1 = Some d" by blast
    show ?thesis
      using LoadOrStore_new [OF None dn, of v] d s1 c
        inv_insert_new [of s1 d k v] contents_insert_new [of s1 d k v]
      by (simp add: s1_def [symmetric] Let_def)
  qed
qed

section \<open>Range and Reset\<close>

text \<open>
  The loops of \<open>Range\<close> and \<open>Reset\<close> in closed form, and the invariant along every
  run of the public operations: no call ends in a failed assertion or a null pointer.
\<close>

lemma live_pairs_Nil [simp]: "live_pairs [] h = []"
  by (simp add: live_pairs_def List.map_filter_simps)

lemma live_pairs_Cons [simp]:
  "live_pairs ((k, a) # t) h =
     (case Entry_value (h a) of None \<Rightarrow> live_pairs t h | Some v \<Rightarrow> (k, v) # live_pairs t h)"
  by (simp add: live_pairs_def List.map_filter_simps split: option.splits)

lemma until_rejected_simps [simp]:
  "until_rejected f [] = []"
  "until_rejected f ((k, v) # xs) = (if f k v then (k, v) # until_rejected f xs else [(k, v)])"
  by (simp_all add: until_rejected_def)

lemma Map_Range_loop_correct:
  assumes "\<forall>(k, a) \<in> set t. Entry_inv (h a)"
  shows "Map_Range_loop f t h = Some (until_rejected f (live_pairs t h))"
  using assms
proof (induction t)
  case Nil
  show ?case by simp
next
  case (Cons p t)
  obtain k a where p: "p = (k, a)" by (cases p)
  have ih: "Map_Range_loop f t h = Some (until_rejected f (live_pairs t h))"
    using Cons.prems by (intro Cons.IH) simp
  have "Entry_inv (h a)" using Cons.prems p by simp
  then show ?case
    unfolding p
    by (cases rule: Entry_value_cases) (simp_all add: ih Entry_Load_eq)
qed

lemma set_live_pairs:
  assumes "distinct (map fst t)"
  shows "(k, v) \<in> set (live_pairs t h) \<longleftrightarrow>
           (\<exists>a. map_of t k = Some a \<and> Entry_value (h a) = Some v)"
  using assms
proof (induction t)
  case Nil
  show ?case by simp
next
  case (Cons p t)
  obtain k' a' where p: "p = (k', a')" by (cases p)
  have n: "map_of t k' = None" using Cons.prems unfolding p by (simp add: map_of_eq_None_iff)
  show ?case using Cons n unfolding p
    by (cases "Entry_value (h a')") auto
qed

lemma distinct_live_pairs:
  assumes "distinct (map fst t)"
  shows "distinct (map fst (live_pairs t h))"
  using assms
proof (induction t)
  case Nil
  show ?case by simp
next
  case (Cons p t)
  obtain k' a' where p: "p = (k', a')" by (cases p)
  have "k' \<notin> fst ` set (live_pairs t h)"
  proof
    assume "k' \<in> fst ` set (live_pairs t h)"
    then obtain v where "(k', v) \<in> set (live_pairs t h)" by auto
    then have "map_of t k' \<noteq> None" using set_live_pairs [of t k' v h] Cons.prems by auto
    then show False using Cons.prems unfolding p by (simp add: map_of_eq_None_iff)
  qed
  then show ?case using Cons unfolding p by (cases "Entry_value (h a')") auto
qed

lemma Reset_loop_correct:
  assumes "distinct (map fst t)" "\<forall>(k, a) \<in> set t. Entry_inv (h a)"
  shows "Reset_loop t h raw =
           Some (\<lambda>k. case raw k of
                        Some v \<Rightarrow> Some v
                      | None \<Rightarrow> (case map_of t k of
                                   None \<Rightarrow> None
                                 | Some a \<Rightarrow> Entry_value (h a)))"
  using assms
proof (induction t arbitrary: raw)
  case Nil
  have "(\<lambda>k. case raw k of
               Some v \<Rightarrow> Some v
             | None \<Rightarrow> (case map_of [] k of None \<Rightarrow> None | Some a \<Rightarrow> Entry_value (h a))) = raw"
    by (rule ext) (simp split: option.splits)
  then show ?case by simp
next
  case (Cons p t)
  obtain k a where p: "p = (k, a)" by (cases p)
  have n: "map_of t k = None" using Cons.prems(1) unfolding p by (simp add: map_of_eq_None_iff)
  have ih: "Reset_loop t h r =
           Some (\<lambda>k. case r k of
                        Some v \<Rightarrow> Some v
                      | None \<Rightarrow> (case map_of t k of
                                   None \<Rightarrow> None
                                 | Some a \<Rightarrow> Entry_value (h a)))" for r
    using Cons.prems by (intro Cons.IH) simp_all
  have "Entry_inv (h a)" using Cons.prems(2) p by simp
  then show ?case
  proof (cases rule: Entry_value_cases)
    case (present v0)
    have "(case raw_emplace k v0 raw k' of
             Some v \<Rightarrow> Some v
           | None \<Rightarrow> (case map_of t k' of None \<Rightarrow> None | Some a \<Rightarrow> Entry_value (h a))) =
          (case raw k' of
             Some v \<Rightarrow> Some v
           | None \<Rightarrow> (case map_of ((k, a) # t) k' of None \<Rightarrow> None | Some a \<Rightarrow> Entry_value (h a)))"
      for k'
      using present(3) n by (auto simp: raw_emplace_def split: option.splits)
    then show ?thesis unfolding p using present by (simp add: Entry_Load_eq ih)
  next
    case null
    have "(case raw k' of
             Some v \<Rightarrow> Some v
           | None \<Rightarrow> (case map_of t k' of None \<Rightarrow> None | Some a \<Rightarrow> Entry_value (h a))) =
          (case raw k' of
             Some v \<Rightarrow> Some v
           | None \<Rightarrow> (case map_of ((k, a) # t) k' of None \<Rightarrow> None | Some a \<Rightarrow> Entry_value (h a)))"
      for k'
      using null(2) n by (auto split: option.splits)
    then show ?thesis unfolding p using null by (simp add: Entry_Load_eq ih)
  next
    case expunged
    have "(case raw k' of
             Some v \<Rightarrow> Some v
           | None \<Rightarrow> (case map_of t k' of None \<Rightarrow> None | Some a \<Rightarrow> Entry_value (h a))) =
          (case raw k' of
             Some v \<Rightarrow> Some v
           | None \<Rightarrow> (case map_of ((k, a) # t) k' of None \<Rightarrow> None | Some a \<Rightarrow> Entry_value (h a)))"
      for k'
      using expunged(2) n by (auto split: option.splits)
    then show ?thesis unfolding p using expunged by (simp add: Entry_Load_eq ih)
  qed
qed

lemma inv_read_entries:
  assumes inv: "Map_inv s"
  shows "\<forall>(k, a) \<in> set (read_m s). Entry_inv (entries s a)"
proof (clarify)
  fix k a assume "(k, a) \<in> set (read_m s)"
  then have "rd s k = Some a" using inv_distinct_rd [OF inv] by (simp add: rd_def)
  then show "Entry_inv (entries s a)" using inv_ref [OF inv, of k a] by simp
qed

lemma inv_dirty_entries:
  assumes inv: "Map_inv s" and d: "dirty s = Some d"
  shows "\<forall>(k, a) \<in> set d. Entry_inv (entries s a)"
proof (clarify)
  fix k a assume "(k, a) \<in> set d"
  then have "dt s k = Some a" using inv_distinct_dt [OF inv d] d by simp
  then show "Entry_inv (entries s a)" using inv_ref [OF inv, of k a] by simp
qed

lemma Range_correct_amended:
  assumes inv: "Map_inv s" and am: "read_amended s"
  shows "\<exists>d. dirty s = Some d \<and>
           Map_Range (Some f) s =
             Some (until_rejected f (live_pairs d (entries s)),
                   s\<lparr>read_m := d, read_amended := False, dirty := None, misses := 0\<rparr>)"
proof -
  obtain d where d: "dirty s = Some d" using inv_amended [OF inv] am by auto
  show ?thesis
    using d am Map_Range_loop_correct [OF inv_dirty_entries [OF inv d], of f]
    by (simp add: Map_Range_def)
qed

lemma Range_correct_clean:
  assumes inv: "Map_inv s" and am: "\<not> read_amended s"
  shows "Map_Range (Some f) s = Some (until_rejected f (live_pairs (read_m s) (entries s)), s)"
  using am Map_Range_loop_correct [OF inv_read_entries [OF inv], of f]
  by (simp add: Map_Range_def)

lemma Range_inv:
  assumes inv: "Map_inv s"
  shows "\<exists>calls s'. Map_Range f s = Some (calls, s') \<and> Map_inv s' \<and> contents s' = contents s"
proof (cases f)
  case None
  then show ?thesis using inv by (simp add: Map_Range_def)
next
  case (Some g)
  show ?thesis
  proof (cases "read_amended s")
    case True
    obtain d where d: "dirty s = Some d" and
      r: "Map_Range (Some g) s =
             Some (until_rejected g (live_pairs d (entries s)),
                   s\<lparr>read_m := d, read_amended := False, dirty := None, misses := 0\<rparr>)"
      using Range_correct_amended [OF inv True, of g] by blast
    show ?thesis unfolding Some using r inv_promote [OF inv d] contents_promote [OF inv d] by simp
  next
    case False
    show ?thesis unfolding Some using Range_correct_clean [OF inv False, of g] inv by simp
  qed
qed

lemma inv_reset: "Map_inv (s\<lparr>read_m := [], read_amended := False, dirty := None, misses := 0\<rparr>)"
  by (rule Map_invI) simp_all

lemma contents_reset:
  "contents (s\<lparr>read_m := [], read_amended := False, dirty := None, misses := 0\<rparr>) k = None"
  by (simp add: contents_def)

lemma Reset_correct:
  assumes inv: "Map_inv s"
  shows "Reset (Some raw) s =
           Some (Some (\<lambda>k. case raw k of Some v \<Rightarrow> Some v | None \<Rightarrow> contents s k),
                 s\<lparr>read_m := [], read_amended := False, dirty := None, misses := 0\<rparr>)"
proof (cases "read_amended s")
  case True
  then obtain d where d: "dirty s = Some d" using inv_amended [OF inv] by auto
  have "contents (s\<lparr>read_m := d, read_amended := False, dirty := None, misses := 0\<rparr>) k =
          (case map_of d k of None \<Rightarrow> None | Some a \<Rightarrow> Entry_value (entries s a))" for k
    by (simp add: contents_def split: option.splits)
  then have c: "(case map_of d k of None \<Rightarrow> None | Some a \<Rightarrow> Entry_value (entries s a)) = contents s k" for k
    using contents_promote [OF inv d] by metis
  show ?thesis
    using True d Reset_loop_correct [OF inv_distinct_dt [OF inv d] inv_dirty_entries [OF inv d], of raw]
    by (simp add: Reset_def c cong: option.case_cong)
next
  case False
  then have d: "dirty s = None" using inv_amended [OF inv] by auto
  have c: "(case map_of (read_m s) k of None \<Rightarrow> None | Some a \<Rightarrow> Entry_value (entries s a)) = contents s k" for k
    using d by (simp add: contents_def rd_def split: option.splits)
  show ?thesis
    using False Reset_loop_correct [OF inv_distinct_rd [OF inv] inv_read_entries [OF inv], of raw]
    by (simp add: Reset_def c cong: option.case_cong)
qed

lemma Reset_None:
  "Reset None s = Some (None, s\<lparr>read_m := [], read_amended := False, dirty := None, misses := 0\<rparr>)"
  by (simp add: Reset_def)

lemma inv_new_Map: "Map_inv new_Map"
  by (rule Map_invI) (simp_all add: new_Map_def rd_def)

lemma contents_new_Map: "contents new_Map k = None"
  by (simp add: contents_def new_Map_def rd_def)

lemma step_inv:
  assumes inv: "Map_inv s"
  shows "\<exists>s'. step x s = Some s' \<and> Map_inv s'"
proof (cases x)
  case (Store_op k v)
  then show ?thesis using Store_correct [OF inv, of k v] by auto
next
  case (Load_op k)
  then show ?thesis using Load_correct [OF inv, of k] by auto
next
  case (LoadOrStore_op k v)
  then show ?thesis using LoadOrStore_correct [OF inv, of k v] by auto
next
  case (Delete_op k)
  then show ?thesis using Delete_correct [OF inv, of k] by auto
next
  case (Range_op f)
  then show ?thesis using Range_inv [OF inv, of f] by auto
next
  case (Reset_op raw)
  show ?thesis
  proof (cases raw)
    case None
    then show ?thesis using Reset_op inv_reset [of s] by (simp add: Reset_None)
  next
    case (Some r)
    then show ?thesis using Reset_op inv_reset [of s] by (simp add: Reset_correct [OF inv])
  qed
qed

lemma run_inv:
  assumes "Map_inv s"
  shows "\<exists>s'. run xs s = Some s' \<and> Map_inv s'"
  using assms
proof (induction xs arbitrary: s)
  case Nil
  then show ?case by simp
next
  case (Cons x xs)
  obtain s1 where "step x s = Some s1" "Map_inv s1" using step_inv [OF Cons.prems] by blast
  then show ?case using Cons.IH [of s1] by simp
qed

lemma run_new_Map_inv: "run xs new_Map = Some s \<Longrightarrow> Map_inv s"
  using run_inv [OF inv_new_Map, of xs] by auto

section \<open>Facts the claims share\<close>

text \<open>
  \<open>Entry_value\<close> is the value \<^verbatim>\<open>Entry::Load\<close> reports, and a store to a fresh key in a
  state without overlay expunges the deleted entries of the published table.
\<close>

lemma Entry_Load_value: "Entry_Load e = (Some v, True) \<longleftrightarrow> state e = kValue \<and> ptr e = Some v"
  by (auto simp: Entry_Load_eq)

lemma Entry_value_Some: "Entry_value e = Some v \<longleftrightarrow> Entry_Load e = (Some v, True)"
  by (auto simp: Entry_Load_eq Entry_value_def)

lemma Store_builds_overlay:
  assumes inv: "Map_inv s" and r: "rd s k = Some a" and n: "state (entries s a) = kNull"
    and am: "\<not> read_amended s" and k': "rd s k' = None"
  shows "\<exists>s2 d2. Store k' v' s = Some s2 \<and> Map_inv s2 \<and> rd s2 = rd s \<and> dirty s2 = Some d2 \<and>
           state (entries s2 a) = kExpunged \<and> map_of d2 k = None"
proof -
  have d: "dirty s = None" using inv_amended [OF inv] am by simp
  have dn: "dt s k' = None" using d by simp
  have ne: "k \<noteq> k'" using r k' by auto
  have a: "a < next_entry s" using inv_ref [OF inv disjI1 [OF r]] by simp
  have ain: "a \<in> snd ` set (read_m s)" by (rule rd_in_table [OF r])
  let ?d = "filter (\<lambda>(k, a). state (entries s a) = kValue) (read_m s)"
  have f: "map_of ?d k = None"
    using map_of_filter_kValue [OF inv_distinct_rd [OF inv], of "entries s" k] r n
    by (simp add: rd_def)
  let ?s2 = "s\<lparr>entries := (expunge_all (read_m s) (entries s))(next_entry s := NewEntry v'),
               next_entry := Suc (next_entry s),
               dirty := Some (AList.update k' (next_entry s) ?d),
               read_amended := True\<rparr>"
  have st: "Store k' v' s = Some ?s2"
    using Store_new [OF k' dn, of v'] am DirtyLocked_eq [OF d inv_distinct_rd [OF inv]]
    by (simp add: Let_def)
  have "Map_inv ?s2" using Store_correct [OF inv, of k' v'] st by simp
  moreover have "state (entries ?s2 a) = kExpunged"
    using a ain n by (simp add: expunge_all_def)
  moreover have "map_of (AList.update k' (next_entry s) ?d) k = None"
    using f ne by simp
  ultimately show ?thesis using st by simp
qed

text \<open>
  \<open>MissLocked\<close> in closed form for an overlay of fewer than \<open>2 ^ 31\<close> nodes, where
  \<^verbatim>\<open>static_cast<int>\<close> keeps the size. At \<open>2 ^ 31\<close> nodes the cast gives a negative number
  and the first miss promotes the overlay.
\<close>

lemma length_delete_key:
  assumes "distinct (map fst d)" "map_of d k = Some a"
  shows "Suc (length (AList.delete k d)) = length d"
  using assms
proof (induction d)
  case Nil
  then show ?case by simp
next
  case (Cons p d)
  show ?case
  proof (cases "fst p = k")
    case True
    then have "k \<notin> fst ` set d" using Cons.prems(1) by auto
    then show ?thesis using True by simp
  next
    case False
    then show ?thesis using Cons by (cases p) auto
  qed
qed

lemma MissLocked_eq:
  assumes "dirty s = Some d" "length d < 2 ^ 31" "misses s < 2 ^ 31 - 1"
  shows "MissLocked s =
           Some (if misses s + 1 < int (length d) then s\<lparr>misses := misses s + 1\<rparr>
                 else s\<lparr>read_m := d, read_amended := False, dirty := None, misses := 0\<rparr>)"
  using assms by (simp add: MissLocked_def Let_def static_cast_int_small)

lemma MissLocked_bookkeeping:
  assumes "dirty s = Some d" "length d < 2 ^ 31" "misses s < 2 ^ 31 - 1"
  shows "\<exists>s'. MissLocked s = Some s' \<and> bookkeeping s' = miss_recorded d s \<and>
           entries s' = entries s"
  using MissLocked_eq [OF assms] assms(1)
  by (simp add: bookkeeping_def miss_recorded_def)

lemma MissLocked_size_wraps:
  assumes "dirty s = Some d" "length d = 2 ^ 31" "0 \<le> misses s" "misses s < 2 ^ 31 - 1"
  shows "MissLocked s =
           Some (s\<lparr>read_m := d, read_amended := False, dirty := None, misses := 0\<rparr>)"
  using assms by (simp add: MissLocked_def Let_def static_cast_int_def)

section \<open>The claims\<close>

text \<open>
  C1. On a freshly constructed map, store("a",1) and store("b",2) make load("a") return
  (1,true); delete("a") then returns (1,true); load("a") then finds nothing;
  load_or_store("a",9) returns (9,false); load("a") returns (9,true); and a range whose
  predicate accepts every pair is shown exactly the pairs ("a",9) and ("b",2), each once.
\<close>

theorem C1_scenario:
  "\<exists>s1 s2 s3 s4 s5 s6 s7 s8 calls.
     Store ''a'' (1::int) new_Map = Some s1 \<and>
     Store ''b'' 2 s1 = Some s2 \<and>
     Load ''a'' s2 = Some (Some 1, s3) \<and>
     Delete ''a'' s3 = Some (Some 1, s4) \<and>
     Load ''a'' s4 = Some (None, s5) \<and>
     LoadOrStore ''a'' 9 s5 = Some ((9, False), s6) \<and>
     Load ''a'' s6 = Some (Some 9, s7) \<and>
     Map_Range (Some (\<lambda>k v. True)) s7 = Some (calls, s8) \<and>
     distinct calls \<and> set calls = {(''a'', 9), (''b'', 2)}"
  by (auto simp add: map_defs entry_eqs)

text \<open>
  C2, as the code has it. Let the overlay \<open>d\<close> exist, with fewer than \<open>2 ^ 31\<close> nodes, and
  let \<open>k\<close> be a key the published table lacks. Recording a miss (\<open>MissLocked\<close>) adds one
  to the miss counter, and the overlay is promoted exactly when the counter has then
  reached the size of the overlay at that moment: the overlay becomes the published
  table, the snapshot is no longer amended, the overlay pointer is cleared and the counter
  is zero again; below that only the counter changes. \<open>Load\<close> of \<open>k\<close>, \<open>Delete\<close> of a
  \<open>k\<close> the overlay lacks, and \<open>LoadOrStore\<close> of a \<open>k\<close> the overlay holds record one miss
  against \<open>d\<close>. \<open>Delete\<close> of a \<open>k\<close> the overlay holds erases the node first and records
  its miss against the overlay that is one node smaller. \<open>Store\<close> of \<open>k\<close>, and
  \<open>LoadOrStore\<close> of a \<open>k\<close> the overlay lacks, look the overlay up and record no miss:
  counter and published table stay, and the overlay is kept.
\<close>

theorem C2_miss_promotion:
  assumes "Map_inv s" and "dirty s = Some d" and "length d < 2 ^ 31"
    and "map_of (read_m s) k = None"
  shows "MissLocked s =
           Some (if misses s + 1 < int (length d) then s\<lparr>misses := misses s + 1\<rparr>
                 else s\<lparr>read_m := d, read_amended := False, dirty := None, misses := 0\<rparr>) \<and>
         (\<exists>r. Load k s =
           Some (r, if misses s + 1 < int (length d) then s\<lparr>misses := misses s + 1\<rparr>
                    else s\<lparr>read_m := d, read_amended := False, dirty := None, misses := 0\<rparr>)) \<and>
         (\<forall>a. map_of d k = Some a \<longrightarrow>
            (\<exists>r s'. LoadOrStore k v s = Some (r, s') \<and> bookkeeping s' = miss_recorded d s)) \<and>
         (map_of d k = None \<longrightarrow>
            (\<exists>s'. Delete k s = Some (None, s') \<and> bookkeeping s' = miss_recorded d s)) \<and>
         (\<forall>a. map_of d k = Some a \<longrightarrow>
            (\<exists>r s'. Delete k s = Some (r, s') \<and>
                    bookkeeping s' = miss_recorded (AList.delete k d) s \<and>
                    Suc (length (AList.delete k d)) = length d)) \<and>
         (\<exists>s'. Store k v s = Some s' \<and> read_m s' = read_m s \<and> read_amended s' \<and>
               dirty s' \<noteq> None \<and> misses s' = misses s) \<and>
         (map_of d k = None \<longrightarrow>
            (\<exists>r s'. LoadOrStore k v s = Some (r, s') \<and> read_m s' = read_m s \<and>
                    read_amended s' \<and> dirty s' \<noteq> None \<and> misses s' = misses s))"
proof -
  note inv = assms(1) and d = assms(2) and small = assms(3)
  let ?s' = "if misses s + 1 < int (length d) then s\<lparr>misses := misses s + 1\<rparr>
             else s\<lparr>read_m := d, read_amended := False, dirty := None, misses := 0\<rparr>"
  have mb: "misses s < 2 ^ 31 - 1" using inv_misses [OF inv] by simp
  have m: "MissLocked s = Some ?s'" by (rule MissLocked_eq [OF d small mb])
  have am: "read_amended s" using inv_amended [OF inv] d by simp
  have r: "rd s k = None" using assms(4) by (simp add: rd_def)
  \<comment> \<open>Load\<close>
  have e: "Entry_inv (entries ?s' a)" if "map_of d k = Some a" for a
    using inv_ref [OF inv, of k a] that d by simp
  have load: "\<exists>r. Load k s = Some (r, ?s')"
    using Load_miss [OF r am d m e] by blast
  \<comment> \<open>LoadOrStore of a key of the overlay\<close>
  have los_hit: "\<exists>r s'. LoadOrStore k v s = Some (r, s') \<and> bookkeeping s' = miss_recorded d s"
    if a: "map_of d k = Some a" for a
  proof -
    have da: "dt s k = Some a" using a d by simp
    have ei: "Entry_inv (entries s a)" using inv_ref [OF inv disjI2 [OF da]] by simp
    have ne: "state (entries s a) \<noteq> kExpunged" using inv_dt [OF inv da] by simp
    from ei show ?thesis
    proof (cases rule: Entry_value_cases)
      case (present v0)
      obtain s' where s': "MissLocked s = Some s'" "bookkeeping s' = miss_recorded d s"
        using MissLocked_bookkeeping [OF d small mb] by blast
      show ?thesis using LoadOrStore_overlay_present [OF r da present(1,2) s'(1), of v] s'(2) by blast
    next
      case null
      let ?s1 = "s\<lparr>entries := (entries s)(a := (entries s a)\<lparr>ptr := Some v, state := kValue\<rparr>)\<rparr>"
      have "dirty ?s1 = Some d" "misses ?s1 < 2 ^ 31 - 1" using d mb by simp_all
      then obtain s' where s': "MissLocked ?s1 = Some s'" "bookkeeping s' = miss_recorded d ?s1"
        using MissLocked_bookkeeping [of ?s1 d, OF _ small] by blast
      have "miss_recorded d ?s1 = miss_recorded d s" by (simp add: miss_recorded_def)
      then show ?thesis using LoadOrStore_overlay_null [OF r da null(1) s'(1)] s'(2) by auto
    next
      case expunged
      then show ?thesis using ne by simp
    qed
  qed
  \<comment> \<open>Delete of a key of neither table\<close>
  have del_miss: "\<exists>s'. Delete k s = Some (None, s') \<and> bookkeeping s' = miss_recorded d s"
    if a: "map_of d k = None"
  proof -
    obtain s' where s': "MissLocked s = Some s'" "bookkeeping s' = miss_recorded d s"
      using MissLocked_bookkeeping [OF d small mb] by blast
    show ?thesis using Delete_miss_absent [OF r am d a s'(1)] s'(2) by blast
  qed
  \<comment> \<open>Delete of a key of the overlay: the node is erased before the miss is recorded\<close>
  have del_hit: "\<exists>r s'. Delete k s = Some (r, s') \<and>
                    bookkeeping s' = miss_recorded (AList.delete k d) s \<and>
                    Suc (length (AList.delete k d)) = length d"
    if a: "map_of d k = Some a" for a
  proof -
    let ?d' = "AList.delete k d"
    let ?s1 = "s\<lparr>dirty := Some ?d'\<rparr>"
    have len: "Suc (length ?d') = length d"
      by (rule length_delete_key [OF inv_distinct_dt [OF inv d] a])
    then have small': "length ?d' < 2 ^ 31" using small by linarith
    have "dirty ?s1 = Some ?d'" "misses ?s1 < 2 ^ 31 - 1" using mb by simp_all
    then obtain s' where s': "MissLocked ?s1 = Some s'" "bookkeeping s' = miss_recorded ?d' ?s1"
      "entries s' = entries ?s1"
      using MissLocked_bookkeeping [of ?s1 ?d', OF _ small'] by blast
    have mr: "miss_recorded ?d' ?s1 = miss_recorded ?d' s" by (simp add: miss_recorded_def)
    have ei: "Entry_inv (entries s' a)"
      using inv_ref [OF inv, of k a] a d s'(3) by simp
    have "bookkeeping (s'\<lparr>entries := h\<rparr>) = bookkeeping s'" for h
      by (simp add: bookkeeping_def)
    then show ?thesis
      using Delete_miss_overlay [OF r am d a s'(1) ei] s'(2) mr len by auto
  qed
  \<comment> \<open>Store and a LoadOrStore of a new key look the overlay up and record no miss\<close>
  have store: "\<exists>s'. Store k v s = Some s' \<and> read_m s' = read_m s \<and> read_amended s' \<and>
               dirty s' \<noteq> None \<and> misses s' = misses s"
  proof (cases "map_of d k")
    case None
    then have dn: "dt s k = None" using d by simp
    show ?thesis using Store_new [OF r dn, of v] am d by (simp add: Let_def)
  next
    case (Some a)
    then have da: "dt s k = Some a" using d by simp
    show ?thesis using Store_overlay [OF r da, of v] am d by simp
  qed
  have los_new: "\<exists>r s'. LoadOrStore k v s = Some (r, s') \<and> read_m s' = read_m s \<and>
                    read_amended s' \<and> dirty s' \<noteq> None \<and> misses s' = misses s"
    if a: "map_of d k = None"
  proof -
    have dn: "dt s k = None" using a d by simp
    show ?thesis using LoadOrStore_new [OF r dn, of v] am d by (auto simp: Let_def)
  qed
  show ?thesis using m load los_hit del_miss del_hit store los_new by blast
qed

theorem C2_miss_promotion_witness:
  "\<exists>s t. run [Store_op ''a'' (1::int), Store_op ''b'' 2] new_Map = Some s \<and>
         Map_inv s \<and> dirty s = Some [(''a'', 0), (''b'', 1)] \<and>
         length [(''a'', 0::nat), (''b'', 1)] < 2 ^ 31 \<and>
         map_of (read_m s) ''c'' = None \<and> map_of (read_m s) ''a'' = None \<and> misses s = 0 \<and>
         MissLocked s = Some (s\<lparr>misses := 1\<rparr>) \<and>
         (\<exists>r. Load ''c'' s = Some (r, s\<lparr>misses := 1\<rparr>)) \<and>
         (\<exists>r s'. LoadOrStore ''a'' 5 s = Some (r, s') \<and>
                 bookkeeping s' = ([], True, Some [(''a'', 0), (''b'', 1)], 1)) \<and>
         (\<exists>s'. Delete ''c'' s = Some (None, s') \<and>
                 bookkeeping s' = ([], True, Some [(''a'', 0), (''b'', 1)], 1)) \<and>
         (\<exists>r s'. Delete ''a'' s = Some (r, s') \<and>
                 bookkeeping s' = ([(''b'', 1)], False, None, 0)) \<and>
         (\<exists>s'. Store ''a'' 5 s = Some s' \<and> read_m s' = [] \<and> read_amended s' \<and>
                dirty s' \<noteq> None \<and> misses s' = 0) \<and>
         (\<exists>r s'. LoadOrStore ''c'' 5 s = Some (r, s') \<and> read_m s' = [] \<and> read_amended s' \<and>
                dirty s' \<noteq> None \<and> misses s' = 0) \<and>
         run [Store_op ''a'' (1::int), Store_op ''b'' 2, Load_op ''c''] new_Map = Some t \<and>
         Map_inv t \<and> dirty t = Some [(''a'', 0), (''b'', 1)] \<and>
         map_of (read_m t) ''c'' = None \<and> misses t = 1 \<and>
         MissLocked t =
           Some (t\<lparr>read_m := [(''a'', 0), (''b'', 1)], read_amended := False, dirty := None,
                   misses := 0\<rparr>) \<and>
         (\<exists>r. Load ''c'' t =
            Some (r, t\<lparr>read_m := [(''a'', 0), (''b'', 1)], read_amended := False, dirty := None,
                       misses := 0\<rparr>))"
proof -
  obtain s where rs: "run [Store_op ''a'' (1::int), Store_op ''b'' 2] new_Map = Some s"
    and invs: "Map_inv s"
    using run_inv [OF inv_new_Map] by blast
  obtain t where rt: "run [Store_op ''a'' (1::int), Store_op ''b'' 2, Load_op ''c''] new_Map = Some t"
    and invt: "Map_inv t"
    using run_inv [OF inv_new_Map] by blast
  have fs: "dirty s = Some [(''a'', 0), (''b'', 1)]" "map_of (read_m s) ''c'' = None"
    "misses s = 0" "map_of (read_m s) ''a'' = None" "read_m s = []" "read_amended s"
    using rs by (auto simp: map_defs entry_eqs)
  have ft: "dirty t = Some [(''a'', 0), (''b'', 1)]" "map_of (read_m t) ''c'' = None" "misses t = 1"
    using rt by (auto simp: map_defs entry_eqs)
  have l: "length [(''a'', 0::nat), (''b'', 1)] < 2 ^ 31" by simp
  have mr: "miss_recorded [(''a'', 0), (''b'', 1)] s = ([], True, Some [(''a'', 0), (''b'', 1)], 1)"
    "miss_recorded (AList.delete ''a'' [(''a'', 0), (''b'', 1)]) s = ([(''b'', 1)], False, None, 0)"
    using fs by (simp_all add: miss_recorded_def)
  note c = C2_miss_promotion [OF invs fs(1) l fs(2), of 5]
  note a = C2_miss_promotion [OF invs fs(1) l fs(4), of 5]
  note u = C2_miss_promotion [OF invt ft(1) l ft(2), of 5]
  have 1: "MissLocked s = Some (s\<lparr>misses := 1\<rparr>)"
    "\<exists>r. Load ''c'' s = Some (r, s\<lparr>misses := 1\<rparr>)"
    using c fs(3) by simp_all
  have 2: "\<exists>r s'. LoadOrStore ''a'' 5 s = Some (r, s') \<and>
                 bookkeeping s' = ([], True, Some [(''a'', 0), (''b'', 1)], 1)"
    "\<exists>r s'. Delete ''a'' s = Some (r, s') \<and> bookkeeping s' = ([(''b'', 1)], False, None, 0)"
    "\<exists>s'. Store ''a'' 5 s = Some s' \<and> read_m s' = [] \<and> read_amended s' \<and>
                dirty s' \<noteq> None \<and> misses s' = 0"
    using a mr fs(3,5) by simp_all
  have 3: "\<exists>s'. Delete ''c'' s = Some (None, s') \<and>
                 bookkeeping s' = ([], True, Some [(''a'', 0), (''b'', 1)], 1)"
    "\<exists>r s'. LoadOrStore ''c'' 5 s = Some (r, s') \<and> read_m s' = [] \<and> read_amended s' \<and>
                dirty s' \<noteq> None \<and> misses s' = 0"
    using c mr fs(3,5) by simp_all
  have 4: "MissLocked t =
           Some (t\<lparr>read_m := [(''a'', 0), (''b'', 1)], read_amended := False, dirty := None,
                   misses := 0\<rparr>)"
    "\<exists>r. Load ''c'' t =
            Some (r, t\<lparr>read_m := [(''a'', 0), (''b'', 1)], read_amended := False, dirty := None,
                       misses := 0\<rparr>)"
    using u ft(3) by simp_all
  show ?thesis
    using rs invs fs(1-4) l 1 2 3 rt invt ft 4 by blast
qed

text \<open>
  C2 as it was stated fails in the state after store("a",1) and store("b",2), where the
  overlay has two nodes and the counter is zero: delete("a") promotes the overlay with the
  counter at one, and store("a",5) and load_or_store("c",3) reach the overlay without
  recording a miss.
\<close>

theorem C2_miss_promotion_counterexample:
  "map_option bookkeeping (run [Store_op ''a'' (1::int), Store_op ''b'' 2] new_Map) =
     Some ([], True, Some [(''a'', 0), (''b'', 1)], 0) \<and>
   map_option bookkeeping
     (run [Store_op ''a'' (1::int), Store_op ''b'' 2, Delete_op ''a''] new_Map) =
     Some ([(''b'', 1)], False, None, 0) \<and>
   map_option bookkeeping
     (run [Store_op ''a'' (1::int), Store_op ''b'' 2, Store_op ''a'' 5] new_Map) =
     Some ([], True, Some [(''a'', 0), (''b'', 1)], 0) \<and>
   map_option bookkeeping
     (run [Store_op ''a'' (1::int), Store_op ''b'' 2, LoadOrStore_op ''c'' 3] new_Map) =
     Some ([], True, Some [(''a'', 0), (''b'', 1), (''c'', 2)], 0)"
  by (simp add: map_defs entry_eqs bookkeeping_def)

text \<open>
  C3. In every state that a sequence of Store, Load, LoadOrStore, Delete, Range and Reset
  calls reaches from a new map and in which the overlay exists, every node of the
  published table whose entry is not Expunged is a node of the overlay too, with the same
  entry address, and no entry of the overlay is Expunged.
\<close>

theorem C3_overlay_invariant:
  assumes "run ops new_Map = Some s" and "dirty s = Some d"
  shows "(\<forall>(k, a) \<in> set (read_m s). state (entries s a) \<noteq> kExpunged \<longrightarrow> (k, a) \<in> set d) \<and>
         (\<forall>(k, a) \<in> set d. state (entries s a) \<noteq> kExpunged)"
proof -
  have inv: "Map_inv s" by (rule run_new_Map_inv [OF assms(1)])
  have dd: "distinct (map fst d)" by (rule inv_distinct_dt [OF inv assms(2)])
  have dr: "distinct (map fst (read_m s))" by (rule inv_distinct_rd [OF inv])
  have "(k, a) \<in> set d" if "(k, a) \<in> set (read_m s)" "state (entries s a) \<noteq> kExpunged" for k a
  proof -
    have "rd s k = Some a" using that(1) dr by (simp add: rd_def)
    then have "dt s k = Some a" using inv_rd [OF inv _ that(2)] assms(2) by simp
    then show ?thesis using assms(2) dd by simp
  qed
  moreover have "state (entries s a) \<noteq> kExpunged" if "(k, a) \<in> set d" for k a
  proof -
    have "dt s k = Some a" using that assms(2) dd by simp
    then show ?thesis using inv_dt [OF inv] by blast
  qed
  ultimately show ?thesis by blast
qed

theorem C3_overlay_invariant_witness:
  "\<exists>s. run [Store_op ''a'' (1::int), Store_op ''c'' 3, Range_op (Some (\<lambda>k v. True)),
             Delete_op ''a'', Store_op ''b'' 2] new_Map = Some s \<and>
       dirty s = Some [(''c'', 1), (''b'', 2)] \<and>
       read_m s = [(''a'', 0), (''c'', 1)] \<and>
       state (entries s 0) = kExpunged \<and>
       state (entries s 1) \<noteq> kExpunged \<and>
       state (entries s 2) \<noteq> kExpunged"
proof -
  obtain s where rs: "run [Store_op ''a'' (1::int), Store_op ''c'' 3, Range_op (Some (\<lambda>k v. True)),
             Delete_op ''a'', Store_op ''b'' 2] new_Map = Some s"
    using run_inv [OF inv_new_Map] by blast
  have fs: "dirty s = Some [(''c'', 1), (''b'', 2)]" "read_m s = [(''a'', 0), (''c'', 1)]"
    "state (entries s 0) = kExpunged"
    using rs by (auto simp: map_defs entry_eqs)
  show ?thesis
    using C3_overlay_invariant [OF rs fs(1)] rs fs by simp
qed

text \<open>
  C4. Let \<open>k\<close> be in the published table, with entry \<open>a\<close>, and let there be no overlay.
  After delete(k), a store to a fresh key \<open>k'\<close> builds the overlay, which leaves \<open>a\<close>
  Expunged and \<open>k\<close> out of the overlay. A later store(k, v) makes \<open>a\<close> Present with \<open>v\<close>
  and puts \<open>k\<close> back into the overlay with the same entry, so load(k) returns \<open>v\<close>; and
  after the promotion that a range performs, \<open>k\<close> is in the published table and load(k)
  still returns \<open>v\<close>.
\<close>

theorem C4_resurrection:
  assumes "Map_inv s" and "map_of (read_m s) k = Some a" and "\<not> read_amended s"
    and "k' \<noteq> k" and "map_of (read_m s) k' = None"
  shows "\<exists>r s1 s2 d2 s3 d3 s4 calls s5 s6.
           Delete k s = Some (r, s1) \<and>
           Store k' v' s1 = Some s2 \<and> dirty s2 = Some d2 \<and>
           state (entries s2 a) = kExpunged \<and> map_of d2 k = None \<and>
           Store k v s2 = Some s3 \<and> dirty s3 = Some d3 \<and> map_of d3 k = Some a \<and>
           state (entries s3 a) = kValue \<and> ptr (entries s3 a) = Some v \<and>
           Load k s3 = Some (Some v, s4) \<and>
           Map_Range (Some f) s3 = Some (calls, s5) \<and> dirty s5 = None \<and>
           map_of (read_m s5) k = Some a \<and>
           Load k s5 = Some (Some v, s6)"
proof -
  note inv = assms(1)
  have r: "rd s k = Some a" and rk': "rd s k' = None" using assms(2,5) by (simp_all add: rd_def)
  have d: "dirty s = None" using inv_amended [OF inv] assms(3) by simp
  have ei: "Entry_inv (entries s a)" using inv_ref [OF inv disjI1 [OF r]] by simp
  have nx: "state (entries s a) \<noteq> kExpunged" by (rule inv_no_dirty [OF inv d r])
  \<comment> \<open>delete(k) leaves the entry Null in the published table\<close>
  define e1 where "e1 = (if state (entries s a) = kValue
                         then (entries s a)\<lparr>ptr := None, state := kNull\<rparr> else entries s a)"
  define s1 where "s1 = s\<lparr>entries := (entries s)(a := e1)\<rparr>"
  have del: "Delete k s = Some (Entry_value (entries s a), s1)"
    using Delete_hit [OF r ei] by (simp add: s1_def e1_def)
  have inv1: "Map_inv s1" using Delete_correct [OF inv, of k] del by simp
  have n1: "state (entries s1 a) = kNull"
    using nx by (cases "state (entries s a)") (simp_all add: s1_def e1_def)
  have r1: "rd s1 k = Some a" "rd s1 k' = None" "\<not> read_amended s1"
    using r rk' assms(3) by (simp_all add: s1_def)
  \<comment> \<open>the write to the fresh key builds the overlay and expunges the entry\<close>
  obtain s2 d2 where s2: "Store k' v' s1 = Some s2" "Map_inv s2" "rd s2 = rd s1"
    "dirty s2 = Some d2" "state (entries s2 a) = kExpunged" "map_of d2 k = None"
    using Store_builds_overlay [OF inv1 r1(1) n1 r1(3) r1(2), of v'] by blast
  have r2: "rd s2 k = Some a" using s2(3) r1(1) by simp
  \<comment> \<open>store(k, v) takes the locked path, unexpunges and re-inserts\<close>
  define s3 where
    "s3 = s2\<lparr>entries := (entries s2)(a := (entries s2 a)\<lparr>ptr := Some v, state := kValue\<rparr>),
             dirty := Some (AList.update k a d2)\<rparr>"
  have st3: "Store k v s2 = Some s3"
    using Store_unexpunge [OF r2 s2(5) s2(4), of v] by (simp add: s3_def)
  have inv3: "Map_inv s3" and c3: "contents s3 k = Some v"
    using Store_correct [OF s2(2), of k v] st3 by auto
  have f3: "dirty s3 = Some (AList.update k a d2)" "map_of (AList.update k a d2) k = Some a"
    "state (entries s3 a) = kValue" "ptr (entries s3 a) = Some v" "read_amended s3"
    using inv_amended [OF inv3] by (simp_all add: s3_def)
  obtain s4 where l3: "Load k s3 = Some (Some v, s4)"
    using Load_correct [OF inv3, of k] c3 by auto
  \<comment> \<open>the next promotion keeps the key\<close>
  define s5 where
    "s5 = s3\<lparr>read_m := AList.update k a d2, read_amended := False, dirty := None, misses := 0\<rparr>"
  obtain calls where rg: "Map_Range (Some f) s3 = Some (calls, s5)"
    using Range_correct_amended [OF inv3 f3(5), of f] f3(1) by (auto simp: s5_def)
  have inv5: "Map_inv s5" unfolding s5_def by (rule inv_promote [OF inv3 f3(1)])
  have c5: "contents s5 k = Some v"
    using contents_promote [OF inv3 f3(1)] c3 by (simp add: s5_def)
  obtain s6 where l5: "Load k s5 = Some (Some v, s6)"
    using Load_correct [OF inv5, of k] c5 by auto
  have f5: "dirty s5 = None" "map_of (read_m s5) k = Some a" by (simp_all add: s5_def)
  show ?thesis
    using del s2(1,4,5,6) st3 f3(1-4) l3 rg f5 l5 by blast
qed

theorem C4_resurrection_witness:
  "\<exists>s. run [Store_op ''a'' (1::int), Range_op (Some (\<lambda>k v. True))] new_Map = Some s \<and>
       Map_inv s \<and> map_of (read_m s) ''a'' = Some 0 \<and> \<not> read_amended s \<and>
       ''b'' \<noteq> ''a'' \<and> map_of (read_m s) ''b'' = None \<and>
       (\<exists>r s1 s2 d2 s3 d3 s4 calls s5 s6.
           Delete ''a'' s = Some (r, s1) \<and>
           Store ''b'' 2 s1 = Some s2 \<and> dirty s2 = Some d2 \<and>
           state (entries s2 0) = kExpunged \<and> map_of d2 ''a'' = None \<and>
           Store ''a'' 5 s2 = Some s3 \<and> dirty s3 = Some d3 \<and> map_of d3 ''a'' = Some 0 \<and>
           state (entries s3 0) = kValue \<and> ptr (entries s3 0) = Some 5 \<and>
           Load ''a'' s3 = Some (Some 5, s4) \<and>
           Map_Range (Some (\<lambda>k v. True)) s3 = Some (calls, s5) \<and> dirty s5 = None \<and>
           map_of (read_m s5) ''a'' = Some 0 \<and>
           Load ''a'' s5 = Some (Some 5, s6))"
proof -
  obtain s where rs: "run [Store_op ''a'' (1::int), Range_op (Some (\<lambda>k v. True))] new_Map = Some s"
    and invs: "Map_inv s"
    using run_inv [OF inv_new_Map] by blast
  have fs: "map_of (read_m s) ''a'' = Some 0" "\<not> read_amended s" "map_of (read_m s) ''b'' = None"
    using rs by (auto simp: map_defs entry_eqs)
  have ne: "''b'' \<noteq> ''a''" by simp
  show ?thesis
    using C4_resurrection [OF invs fs(1,2) ne fs(3), of 2 5 "\<lambda>k v. True"] rs invs fs
    by simp
qed

text \<open>
  C5. \<open>TryLoadOrStore v\<close> on an Expunged entry reports ok=false and leaves the entry as it
  is; on a Present entry it returns the stored value with loaded=true and ok=true and
  leaves the entry as it is; on a Null entry it makes the entry Present with \<open>v\<close> and
  returns \<open>v\<close> with loaded=false and ok=true.
\<close>

theorem C5_TryLoadOrStore:
  "(state e = kExpunged \<longrightarrow> TryLoadOrStore v e = Some ((None, False, False), e)) \<and>
   (state e = kValue \<longrightarrow> TryLoadOrStore v e = Some ((ptr e, True, True), e)) \<and>
   (state e = kNull \<longrightarrow>
      TryLoadOrStore v e = Some ((Some v, False, True), e\<lparr>ptr := Some v, state := kValue\<rparr>))"
  by (simp add: TryLoadOrStore_eq)

theorem C5_TryLoadOrStore_witness:
  "TryLoadOrStore (7::int) \<lparr>ptr = None, state = kExpunged\<rparr>
     = Some ((None, False, False), \<lparr>ptr = None, state = kExpunged\<rparr>) \<and>
   TryLoadOrStore (7::int) \<lparr>ptr = Some 3, state = kValue\<rparr>
     = Some ((Some 3, True, True), \<lparr>ptr = Some 3, state = kValue\<rparr>) \<and>
   TryLoadOrStore (7::int) \<lparr>ptr = None, state = kNull\<rparr>
     = Some ((Some 7, False, True), \<lparr>ptr = Some 7, state = kValue\<rparr>)"
  using C5_TryLoadOrStore [of "\<lparr>ptr = None, state = kExpunged\<rparr>" "7::int"]
        C5_TryLoadOrStore [of "\<lparr>ptr = Some 3, state = kValue\<rparr>" "7::int"]
        C5_TryLoadOrStore [of "\<lparr>ptr = None, state = kNull\<rparr>" "7::int"]
  by simp

text \<open>
  C6. If load(k) finds nothing, load_or_store(k, v) returns (v, false) and a load(k) after
  it returns \<open>v\<close>. If load(k) finds \<open>v0\<close>, load_or_store(k, v) returns (v0, true) and a
  load(k) after it still returns \<open>v0\<close>.
\<close>

theorem C6_LoadOrStore:
  assumes "Map_inv s"
  shows "((\<exists>s0. Load k s = Some (None, s0)) \<longrightarrow>
            (\<exists>s1 s2. LoadOrStore k v s = Some ((v, False), s1) \<and>
                      Load k s1 = Some (Some v, s2))) \<and>
         (\<forall>v0. (\<exists>s0. Load k s = Some (Some v0, s0)) \<longrightarrow>
            (\<exists>s1 s2. LoadOrStore k v s = Some ((v0, True), s1) \<and>
                      Load k s1 = Some (Some v0, s2)))"
proof -
  obtain s0 where l: "Load k s = Some (contents s k, s0)"
    using Load_correct [OF assms, of k] by blast
  obtain s1 where los:
    "LoadOrStore k v s =
       Some ((case contents s k of None \<Rightarrow> (v, False) | Some v0 \<Rightarrow> (v0, True)), s1)"
    "Map_inv s1"
    "contents s1 = (case contents s k of None \<Rightarrow> (contents s)(k \<mapsto> v) | Some v0 \<Rightarrow> contents s)"
    using LoadOrStore_correct [OF assms, of k v] by blast
  obtain s2 where l1: "Load k s1 = Some (contents s1 k, s2)"
    using Load_correct [OF los(2), of k] by blast
  show ?thesis
  proof (cases "contents s k")
    case None
    then show ?thesis using l los l1 by simp
  next
    case (Some v0)
    then show ?thesis using l los l1 by simp
  qed
qed

theorem C6_LoadOrStore_witness:
  "\<exists>s s0 s1 s2 t0 t1 t2.
       run [Store_op ''a'' (1::int)] new_Map = Some s \<and> Map_inv s \<and>
       Load ''a'' s = Some (Some 1, s0) \<and>
       LoadOrStore ''a'' 9 s = Some ((1, True), s1) \<and> Load ''a'' s1 = Some (Some 1, s2) \<and>
       Load ''b'' s = Some (None, t0) \<and>
       LoadOrStore ''b'' 9 s = Some ((9, False), t1) \<and> Load ''b'' t1 = Some (Some 9, t2)"
proof -
  obtain s where rs: "run [Store_op ''a'' (1::int)] new_Map = Some s"
    and invs: "Map_inv s"
    using run_inv [OF inv_new_Map] by blast
  have c: "contents s ''a'' = Some 1" "contents s ''b'' = None"
    using rs by (auto simp: map_defs entry_eqs contents_def rd_def dt_def Entry_value_def)
  obtain s0 where la: "Load ''a'' s = Some (Some 1, s0)"
    using Load_correct [OF invs, of "''a''"] c by auto
  obtain t0 where lb: "Load ''b'' s = Some (None, t0)"
    using Load_correct [OF invs, of "''b''"] c by auto
  show ?thesis
    using C6_LoadOrStore [OF invs, of "''a''" 9] C6_LoadOrStore [OF invs, of "''b''" 9] rs invs la lb
    by fastforce
qed

text \<open>
  C7. On an amended snapshot, a range with a predicate \<open>f\<close>, whatever \<open>f\<close> answers,
  promotes the overlay \<open>d\<close> (it becomes the published table, not amended, the overlay
  pointer cleared, the miss counter zero) and calls \<open>f\<close> on the pairs of \<open>d\<close> whose entry
  reports a value, in table order, up to and with the first pair \<open>f\<close> rejects. Those pairs
  are the nodes of \<open>d\<close> for which \<^verbatim>\<open>Entry::Load\<close> reports loaded.
\<close>

theorem C7_Range_promotes:
  assumes "Map_inv s" and "read_amended s"
  shows "\<exists>d. dirty s = Some d \<and>
           Map_Range (Some f) s =
             Some (until_rejected f (live_pairs d (entries s)),
                   s\<lparr>read_m := d, read_amended := False, dirty := None, misses := 0\<rparr>) \<and>
           (\<forall>k v. (k, v) \<in> set (live_pairs d (entries s)) \<longleftrightarrow>
                    (\<exists>a. (k, a) \<in> set d \<and> Entry_Load (entries s a) = (Some v, True)))"
proof -
  obtain d where d: "dirty s = Some d" and
    r: "Map_Range (Some f) s =
             Some (until_rejected f (live_pairs d (entries s)),
                   s\<lparr>read_m := d, read_amended := False, dirty := None, misses := 0\<rparr>)"
    using Range_correct_amended [OF assms, of f] by blast
  have dd: "distinct (map fst d)" by (rule inv_distinct_dt [OF assms(1) d])
  have "(k, v) \<in> set (live_pairs d (entries s)) \<longleftrightarrow>
          (\<exists>a. (k, a) \<in> set d \<and> Entry_Load (entries s a) = (Some v, True))" for k v
    using set_live_pairs [OF dd, of k v "entries s"] dd by (simp add: Entry_value_Some)
  then show ?thesis using d r by blast
qed

theorem C7_Range_promotes_witness:
  "\<exists>s. run [Store_op ''a'' (1::int), Store_op ''b'' 2] new_Map = Some s \<and>
       Map_inv s \<and> read_amended s \<and> dirty s = Some [(''a'', 0), (''b'', 1)] \<and>
       Map_Range (Some (\<lambda>k v. False)) s =
         Some ([(''a'', 1)],
               s\<lparr>read_m := [(''a'', 0), (''b'', 1)], read_amended := False, dirty := None,
                 misses := 0\<rparr>)"
proof -
  obtain s where rs: "run [Store_op ''a'' (1::int), Store_op ''b'' 2] new_Map = Some s"
    and invs: "Map_inv s"
    using run_inv [OF inv_new_Map] by blast
  have fs: "read_amended s" "dirty s = Some [(''a'', 0), (''b'', 1)]"
    "Entry_value (entries s 0) = Some 1"
    using rs by (auto simp: map_defs entry_eqs Entry_value_def)
  show ?thesis
    using C7_Range_promotes [OF invs fs(1), of "\<lambda>k v. False"] rs invs fs
    by auto
qed

text \<open>
  C8. Reset, given an empty map to fill, returns the keys of the table \<open>t\<close> whose entry is
  Present with their values, where \<open>t\<close> is the overlay if the snapshot is amended and the
  published table otherwise; these are the values a load would have returned. Afterwards
  the published table is empty and not amended, there is no overlay, the miss counter is
  zero, and every load finds nothing.
\<close>

theorem C8_Reset_drains:
  assumes "Map_inv s"
  shows "\<exists>r s' t. Reset (Some Map.empty) s = Some (Some r, s') \<and>
           (if read_amended s then dirty s = Some t else t = read_m s) \<and>
           (\<forall>k v. r k = Some v \<longleftrightarrow>
              (\<exists>a. (k, a) \<in> set t \<and> Entry_Load (entries s a) = (Some v, True))) \<and>
           (\<forall>k. \<exists>s0. Load k s = Some (r k, s0)) \<and>
           read_m s' = [] \<and> \<not> read_amended s' \<and> dirty s' = None \<and> misses s' = 0 \<and>
           (\<forall>k. Load k s' = Some (None, s'))"
proof -
  let ?s' = "s\<lparr>read_m := [], read_amended := False, dirty := None, misses := 0\<rparr>"
  have r: "Reset (Some Map.empty) s = Some (Some (contents s), ?s')"
    using Reset_correct [OF assms, of Map.empty] by simp
  have l: "Load k ?s' = Some (None, ?s')" for k
    by (rule Load_absent) simp_all
  have l0: "\<exists>s0. Load k s = Some (contents s k, s0)" for k
    using Load_correct [OF assms, of k] by blast
  obtain t where t: "if read_amended s then dirty s = Some t else t = read_m s"
    using inv_amended [OF assms] by (cases "read_amended s") auto
  have dt: "distinct (map fst t)"
    using t inv_distinct_rd [OF assms] inv_distinct_dt [OF assms]
    by (cases "read_amended s") auto
  have c: "contents s k = (case map_of t k of None \<Rightarrow> None | Some a \<Rightarrow> Entry_value (entries s a))"
    for k
  proof (cases "read_amended s")
    case False
    then have "dirty s = None" "t = read_m s" using t inv_amended [OF assms] by auto
    then show ?thesis by (simp add: contents_def rd_def split: option.splits)
  next
    case True
    then have d: "dirty s = Some t" using t by simp
    have "contents (s\<lparr>read_m := t, read_amended := False, dirty := None, misses := 0\<rparr>) k =
            contents s k"
      using contents_promote [OF assms d] by simp
    then show ?thesis by (simp add: contents_def split: option.splits)
  qed
  have iff: "contents s k = Some v \<longleftrightarrow>
          (\<exists>a. (k, a) \<in> set t \<and> Entry_Load (entries s a) = (Some v, True))" for k v
  proof -
    have "(k, a) \<in> set t \<longleftrightarrow> map_of t k = Some a" for a using dt by simp
    then show ?thesis by (auto simp: c Entry_value_Some split: option.splits)
  qed
  have "Reset (Some Map.empty) s = Some (Some (contents s), ?s') \<and>
           (if read_amended s then dirty s = Some t else t = read_m s) \<and>
           (\<forall>k v. contents s k = Some v \<longleftrightarrow>
              (\<exists>a. (k, a) \<in> set t \<and> Entry_Load (entries s a) = (Some v, True))) \<and>
           (\<forall>k. \<exists>s0. Load k s = Some (contents s k, s0)) \<and>
           read_m ?s' = [] \<and> \<not> read_amended ?s' \<and> dirty ?s' = None \<and> misses ?s' = 0 \<and>
           (\<forall>k. Load k ?s' = Some (None, ?s'))"
    using r l l0 t iff by simp
  then show ?thesis
    by (intro exI [of _ "contents s"] exI [of _ ?s'] exI [of _ t])
qed

theorem C8_Reset_drains_witness:
  "\<exists>s r s'. run [Store_op ''a'' (1::int), Store_op ''b'' 2, Range_op (Some (\<lambda>k v. True)),
                 Delete_op ''a''] new_Map = Some s \<and>
       Map_inv s \<and>
       Reset (Some Map.empty) s = Some (Some r, s') \<and>
       r ''a'' = None \<and> r ''b'' = Some 2 \<and>
       read_m s' = [] \<and> \<not> read_amended s' \<and> dirty s' = None \<and> misses s' = 0 \<and>
       Load ''b'' s' = Some (None, s')"
proof -
  obtain s where rs: "run [Store_op ''a'' (1::int), Store_op ''b'' 2, Range_op (Some (\<lambda>k v. True)),
                 Delete_op ''a''] new_Map = Some s"
    and invs: "Map_inv s"
    using run_inv [OF inv_new_Map] by blast
  have c: "contents s ''a'' = None" "contents s ''b'' = Some 2"
    using rs by (auto simp: map_defs entry_eqs contents_def rd_def dt_def Entry_value_def)
  obtain r s' where r: "Reset (Some Map.empty) s = Some (Some r, s')"
    "\<forall>k. \<exists>s0. Load k s = Some (r k, s0)"
    "read_m s' = []" "\<not> read_amended s'" "dirty s' = None" "misses s' = 0"
    "\<forall>k. Load k s' = Some (None, s')"
    using C8_Reset_drains [OF invs] by blast
  have "r k = contents s k" for k
    using r(2) Load_correct [OF invs, of k] by (metis option.inject prod.inject)
  then show ?thesis using rs invs r c by auto
qed

text \<open>
  C9 is about the one-argument overload \<^verbatim>\<open>Value Map::Load(const Key &)\<close>. Its body calls
  \<^verbatim>\<open>Get(key, &result)\<close>, and neither \<^verbatim>\<open>Map\<close> nor map.hpp declares a \<^verbatim>\<open>Get\<close>
  (the other containers of the repository do, for their own lookups), so the overload has
  no behaviour to embed: a program that calls it does not compile.
\<close>

text \<open>
  C10. A range with an empty predicate returns at once: it calls nothing and leaves the
  whole state as it was, so it promotes nothing, whether or not the snapshot is amended.
\<close>

theorem C10_Range_empty_predicate: "Map_Range None s = Some ([], s)"
  by (simp add: Map_Range_def)

section \<open>Further properties of the public interface\<close>

text \<open>
  Visibility. After store(k, v), load(k) returns \<open>v\<close>.
\<close>

theorem store_then_load:
  assumes "Map_inv s"
  shows "\<exists>s1 s2. Store k v s = Some s1 \<and> Load k s1 = Some (Some v, s2)"
proof -
  obtain s1 where s1: "Store k v s = Some s1" "Map_inv s1" "contents s1 = (contents s)(k \<mapsto> v)"
    using Store_correct [OF assms, of k v] by blast
  then show ?thesis using Load_correct [OF s1(2), of k] by auto
qed

theorem store_then_load_witness:
  "\<exists>s s1 s2. run [Store_op ''a'' (1::int), Store_op ''b'' 2] new_Map = Some s \<and> Map_inv s \<and>
       Store ''a'' 7 s = Some s1 \<and> Load ''a'' s1 = Some (Some 7, s2)"
proof -
  obtain s where rs: "run [Store_op ''a'' (1::int), Store_op ''b'' 2] new_Map = Some s"
    and invs: "Map_inv s"
    using run_inv [OF inv_new_Map] by blast
  show ?thesis using store_then_load [OF invs, of "''a''" 7] rs invs by blast
qed

text \<open>
  Delete, then load. delete(k) returns what load(k) would have returned, a load(k)
  after it finds nothing, and every other key loads as before.
\<close>

theorem delete_then_load:
  assumes "Map_inv s"
  shows "\<exists>r s0 s1 s2. Load k s = Some (r, s0) \<and> Delete k s = Some (r, s1) \<and>
           Load k s1 = Some (None, s2) \<and>
           (\<forall>k'. k' \<noteq> k \<longrightarrow> (\<exists>r' t0 t1. Load k' s = Some (r', t0) \<and> Load k' s1 = Some (r', t1)))"
proof -
  obtain s0 where l: "Load k s = Some (contents s k, s0)"
    using Load_correct [OF assms, of k] by blast
  obtain s1 where d: "Delete k s = Some (contents s k, s1)" "Map_inv s1"
    "contents s1 = (contents s)(k := None)"
    using Delete_correct [OF assms, of k] by blast
  obtain s2 where l1: "Load k s1 = Some (None, s2)"
    using Load_correct [OF d(2), of k] d(3) by auto
  have "\<exists>r' t0 t1. Load k' s = Some (r', t0) \<and> Load k' s1 = Some (r', t1)" if "k' \<noteq> k" for k'
    using Load_correct [OF assms, of k'] Load_correct [OF d(2), of k'] d(3) that by auto
  then show ?thesis using l d(1) l1 by blast
qed

theorem delete_then_load_witness:
  "\<exists>s s0 s1 s2. run [Store_op ''a'' (1::int), Store_op ''b'' 2] new_Map = Some s \<and> Map_inv s \<and>
       Load ''a'' s = Some (Some 1, s0) \<and> Delete ''a'' s = Some (Some 1, s1) \<and>
       Load ''a'' s1 = Some (None, s2)"
proof -
  obtain s where rs: "run [Store_op ''a'' (1::int), Store_op ''b'' 2] new_Map = Some s"
    and invs: "Map_inv s"
    using run_inv [OF inv_new_Map] by blast
  have c: "contents s ''a'' = Some 1"
    using rs by (auto simp: map_defs entry_eqs contents_def rd_def dt_def Entry_value_def)
  obtain r s0 s1 s2 where x: "Load ''a'' s = Some (r, s0)" "Delete ''a'' s = Some (r, s1)"
    "Load ''a'' s1 = Some (None, s2)"
    using delete_then_load [OF invs, of "''a''"] by blast
  have "r = Some 1" using x(1) Load_correct [OF invs, of "''a''"] c by auto
  then show ?thesis using rs invs x by blast
qed

text \<open>
  No failed assertion, no null pointer. Every sequence of public operations on a new
  map runs to its end, and the state it leaves satisfies the representation invariant.
\<close>

theorem every_run_is_defined:
  "\<exists>s. run ops new_Map = Some s \<and> Map_inv s"
  by (rule run_inv [OF inv_new_Map])

theorem every_run_is_defined_witness:
  "\<exists>s. run [Store_op ''a'' (1::int), LoadOrStore_op ''b'' 2, Delete_op ''a'', Load_op ''c'',
             Range_op None, Reset_op None, Store_op ''a'' 3] new_Map = Some s \<and>
       Map_inv s \<and> dirty s = Some [(''a'', 2)] \<and> read_m s = []"
proof -
  obtain s where rs: "run [Store_op ''a'' (1::int), LoadOrStore_op ''b'' 2, Delete_op ''a'', Load_op ''c'',
             Range_op None, Reset_op None, Store_op ''a'' 3] new_Map = Some s"
    and invs: "Map_inv s"
    using every_run_is_defined by blast
  have "dirty s = Some [(''a'', 2)]" "read_m s = []"
    using rs by (auto simp: map_defs entry_eqs)
  then show ?thesis using rs invs by blast
qed

text \<open>
  Range completeness, for one thread. A range whose predicate accepts every pair is
  shown each key once, and the pairs it is shown are exactly those a load would return.
\<close>

theorem range_shows_the_contents:
  assumes "Map_inv s"
  shows "\<exists>calls s'. Map_Range (Some (\<lambda>k v. True)) s = Some (calls, s') \<and>
           distinct (map fst calls) \<and>
           (\<forall>k v. (k, v) \<in> set calls \<longleftrightarrow> (\<exists>s0. Load k s = Some (Some v, s0)))"
proof -
  have all: "until_rejected (\<lambda>k v. True) xs = xs" for xs :: "('a \<times> 'b) list"
    by (induction xs) auto
  have ld: "(\<exists>s0. Load k s = Some (Some v, s0)) \<longleftrightarrow> contents s k = Some v" for k v
    using Load_correct [OF assms, of k] by auto
  show ?thesis
  proof (cases "read_amended s")
    case True
    obtain d where d: "dirty s = Some d" and
      r: "Map_Range (Some (\<lambda>k v. True)) s =
             Some (until_rejected (\<lambda>k v. True) (live_pairs d (entries s)),
                   s\<lparr>read_m := d, read_amended := False, dirty := None, misses := 0\<rparr>)"
      using Range_correct_amended [OF assms True, of "\<lambda>k v. True"] by blast
    have dd: "distinct (map fst d)" by (rule inv_distinct_dt [OF assms d])
    note c = contents_overlay [OF assms d]
    have "(k, v) \<in> set (live_pairs d (entries s)) \<longleftrightarrow> contents s k = Some v" for k v
      using set_live_pairs [OF dd, of k v "entries s"] by (auto simp: c split: option.splits)
    then show ?thesis using r distinct_live_pairs [OF dd, of "entries s"] by (simp add: all ld)
  next
    case False
    have r: "Map_Range (Some (\<lambda>k v. True)) s =
               Some (until_rejected (\<lambda>k v. True) (live_pairs (read_m s) (entries s)), s)"
      by (rule Range_correct_clean [OF assms False])
    have dd: "distinct (map fst (read_m s))" by (rule inv_distinct_rd [OF assms])
    have "dirty s = None" using inv_amended [OF assms] False by simp
    note c = contents_published [OF this]
    have "(k, v) \<in> set (live_pairs (read_m s) (entries s)) \<longleftrightarrow> contents s k = Some v" for k v
      using set_live_pairs [OF dd, of k v "entries s"] by (auto simp: c split: option.splits)
    then show ?thesis using r distinct_live_pairs [OF dd, of "entries s"] by (simp add: all ld)
  qed
qed

theorem range_shows_the_contents_witness:
  "\<exists>s calls s'. run [Store_op ''a'' (1::int), Store_op ''b'' 2, Delete_op ''a'', Store_op ''c'' 3]
                    new_Map = Some s \<and> Map_inv s \<and>
       Map_Range (Some (\<lambda>k v. True)) s = Some (calls, s') \<and>
       distinct (map fst calls) \<and> set calls = {(''b'', 2), (''c'', 3)}"
proof -
  obtain s where rs: "run [Store_op ''a'' (1::int), Store_op ''b'' 2, Delete_op ''a'', Store_op ''c'' 3]
                    new_Map = Some s"
    and invs: "Map_inv s"
    using run_inv [OF inv_new_Map] by blast
  obtain calls s' where x: "Map_Range (Some (\<lambda>k v. True)) s = Some (calls, s')"
    "distinct (map fst calls)"
    using range_shows_the_contents [OF invs] by blast
  have "set calls = {(''b'', 2), (''c'', 3)}"
    using x(1) rs by (auto simp: map_defs entry_eqs)
  then show ?thesis using rs invs x by blast
qed

end
